theory Spec2Isabelle
  imports Main "HOL-Library.Word"
begin

unbundle bit_operations_syntax

section \<open>The AF_ALG user-space crypto interface: include/crypto/if_alg.h\<close>

text \<open>
  The header declares the data structures of the interface and defines four inline
  functions (\<open>af_alg_sndbuf\<close>, \<open>af_alg_writable\<close>, \<open>af_alg_rcvbuf\<close>,
  \<open>af_alg_readable\<close>) and two macros (\<open>ALG_MAX_PAGES\<close>, \<open>MAX_SGL_ENTS\<close>).

  Machine integers: C \<open>int\<close> is a 32-bit word read in two's complement.
  \<open>size_t\<close> and \<open>unsigned long\<close> are words of the target's long width, the type
  variable \<open>'l\<close>; every target of the kernel has \<open>32 \<le> LENGTH('l)\<close> (32 on ILP32,
  64 on LP64). \<open>PAGE_SHIFT\<close> comes from the architecture's headers and is a parameter
  \<open>page_shift\<close> of the model.
\<close>

subsection \<open>Architecture constants\<close>

type_synonym c_int = "32 word"
type_synonym c_uint = "32 word"

text \<open>
  The page macros of asm/page.h, which the header uses and does not define:
  \<open>#define PAGE_SIZE (1UL << PAGE_SHIFT)\<close>, \<open>#define PAGE_MASK (~(PAGE_SIZE-1))\<close>.
\<close>

definition PAGE_SIZE :: "nat \<Rightarrow> 'l::len word" where
  "PAGE_SIZE page_shift = push_bit page_shift 1"

definition PAGE_MASK :: "nat \<Rightarrow> 'l::len word" where
  "PAGE_MASK page_shift = NOT (PAGE_SIZE page_shift - 1)"

text \<open>
  \<open>max_t(int, x, y)\<close> of linux/kernel.h, which the header uses and does not define:
  both operands are converted to \<open>int\<close> (here by the caller of this function), then
  \<open>x > y ? x : y\<close> in signed comparison.
\<close>

definition max_t_int :: "c_int \<Rightarrow> c_int \<Rightarrow> c_int" where
  "max_t_int x y = (if y <s x then x else y)"

subsection \<open>Data structures\<close>

text \<open>
  The structures of the header, with the fields the model needs. Lists stand for the
  arrays and linked lists. The byte counters of \<open>af_alg_ctx\<close>, which the inline
  functions read, are machine words; the lengths and counts that only the operations
  modelled from the specification use are natural numbers, and pages are named by
  numbers.

  \<open>#define ALG_MAX_PAGES 16\<close>
\<close>

definition ALG_MAX_PAGES :: nat where
  "ALG_MAX_PAGES = 16"

text \<open>
  \<open>struct sock\<close> (net/sock.h) is used through its two buffer sizes only, both of C type
  \<open>int\<close>.
\<close>

record sock =
  sk_sndbuf :: c_int
  sk_rcvbuf :: c_int

text \<open>
  One scatterlist entry (\<open>struct scatterlist\<close> of linux/scatterlist.h, not defined in
  the header): the page it refers to, and the offset and length of the data in that page.
\<close>

record scatterlist =
  sg_page :: nat
  sg_offset :: nat
  sg_length :: nat

text \<open>\<open>struct af_alg_sgl\<close>: at most \<open>ALG_MAX_PAGES\<close> pinned pages and their entries.\<close>

record af_alg_sgl =
  sg :: "scatterlist list"
  pages :: "nat list"
  npages :: nat

text \<open>\<open>struct af_alg_tsgl\<close>, a TX SGL entry: \<open>cur\<close> entries of \<open>sg\<close> are in use.\<close>

record af_alg_tsgl =
  cur :: nat
  tsg :: "scatterlist list"

text \<open>\<open>struct af_alg_rsgl\<close>, an RX SGL entry.\<close>

record af_alg_rsgl =
  sgl :: af_alg_sgl
  sg_num_bytes :: nat

text \<open>
  \<open>struct af_alg_async_req\<close>: the RX SGL entries of the request (\<open>first_rsgl\<close> and
  the list linked through \<open>rsgl_list\<close>), its private TX SGL, and the lengths.
\<close>

record af_alg_async_req =
  rsgl_list :: "af_alg_rsgl list"
  tsgl :: "scatterlist list"
  tsgl_entries :: nat
  outlen :: nat
  areqlen :: nat

text \<open>
  \<open>struct af_alg_type\<close>: of each function pointer and operations table the model keeps
  whether it is set.
\<close>

record af_alg_type =
  has_setkey :: bool
  has_accept :: bool
  has_accept_nokey :: bool
  has_setauthsize :: bool
  has_ops :: bool
  has_ops_nokey :: bool
  type_name :: string

text \<open>
  \<open>struct af_alg_ctx\<close>: the byte counters are \<open>size_t\<close>. The list head \<open>tsgl_list\<close>
  is the list of TX SGL entries hanging off it; the flag \<open>more\<close> is the field
  \<open>more_data\<close>.
\<close>

record (overloaded) 'l af_alg_ctx =
  tsgl_list :: "af_alg_tsgl list"
  aead_assoclen :: "'l word"
  used :: "'l word"
  rcvused :: "'l word"
  more_data :: bool
  merge :: bool
  enc :: bool
  len :: c_uint

text \<open>
  \<open>struct alg_sock\<close>: \<open>struct sock\<close> is its first member, so \<open>alg_sk\<close> is a pointer
  cast and the inline functions, handed a \<open>struct sock *\<close>, work on the enclosing
  \<open>alg_sock\<close>. The field \<open>private\<close> points to the \<open>af_alg_ctx\<close>.
\<close>

record (overloaded) 'l alg_sock =
  sk :: sock
  refcnt :: c_uint
  nokey_refcnt :: c_uint
  private_data :: "'l af_alg_ctx"

subsection \<open>The inline functions\<close>

text \<open>
  \<open>return max_t(int, max_t(int, sk->sk_sndbuf & PAGE_MASK, PAGE_SIZE) - ctx->used, 0);\<close>
  For the \<open>&\<close>, \<open>sk_sndbuf\<close> is converted to \<open>unsigned long\<close> (sign extension),
  and the inner \<open>max_t\<close> casts both operands to \<open>int\<close>. The subtraction is done in
  \<open>size_t\<close>: the \<open>int\<close> is converted to \<open>unsigned long\<close> and the difference
  wraps; the outer \<open>max_t\<close> casts it back to \<open>int\<close>.
\<close>

definition af_alg_sndbuf :: "nat \<Rightarrow> ('l::len) alg_sock \<Rightarrow> c_int" where
  "af_alg_sndbuf page_shift ask =
     (let ctx = private_data ask in
      max_t_int
        (ucast ((scast (max_t_int
                          (ucast ((scast (sk_sndbuf (sk ask)) :: 'l word) AND PAGE_MASK page_shift))
                          (ucast (PAGE_SIZE page_shift :: 'l word))) :: 'l word)
                - used ctx))
        0)"

text \<open>
  \<open>return PAGE_SIZE <= af_alg_sndbuf(sk);\<close> compares in \<open>unsigned long\<close>: the
  \<open>int\<close> is sign-extended.
\<close>

definition af_alg_writable :: "nat \<Rightarrow> ('l::len) alg_sock \<Rightarrow> bool" where
  "af_alg_writable page_shift ask \<longleftrightarrow>
     (PAGE_SIZE page_shift :: 'l word) \<le> scast (af_alg_sndbuf page_shift ask)"

text \<open>
  \<open>return max_t(int, max_t(int, sk->sk_rcvbuf & PAGE_MASK, PAGE_SIZE) - ctx->rcvused, 0);\<close>
\<close>

definition af_alg_rcvbuf :: "nat \<Rightarrow> ('l::len) alg_sock \<Rightarrow> c_int" where
  "af_alg_rcvbuf page_shift ask =
     (let ctx = private_data ask in
      max_t_int
        (ucast ((scast (max_t_int
                          (ucast ((scast (sk_rcvbuf (sk ask)) :: 'l word) AND PAGE_MASK page_shift))
                          (ucast (PAGE_SIZE page_shift :: 'l word))) :: 'l word)
                - rcvused ctx))
        0)"

text \<open>\<open>return PAGE_SIZE <= af_alg_rcvbuf(sk);\<close>\<close>

definition af_alg_readable :: "nat \<Rightarrow> ('l::len) alg_sock \<Rightarrow> bool" where
  "af_alg_readable page_shift ask \<longleftrightarrow>
     (PAGE_SIZE page_shift :: 'l word) \<le> scast (af_alg_rcvbuf page_shift ask)"

text \<open>
  The quotas: the value of the inner \<open>max_t\<close> of \<open>af_alg_sndbuf\<close> and of
  \<open>af_alg_rcvbuf\<close>, named so that the properties below can speak of them.
\<close>

definition snd_quota :: "nat \<Rightarrow> ('l::len) alg_sock \<Rightarrow> c_int" where
  "snd_quota page_shift ask =
     max_t_int (ucast ((scast (sk_sndbuf (sk ask)) :: 'l word) AND PAGE_MASK page_shift))
               (ucast (PAGE_SIZE page_shift :: 'l word))"

definition rcv_quota :: "nat \<Rightarrow> ('l::len) alg_sock \<Rightarrow> c_int" where
  "rcv_quota page_shift ask =
     max_t_int (ucast ((scast (sk_rcvbuf (sk ask)) :: 'l word) AND PAGE_MASK page_shift))
               (ucast (PAGE_SIZE page_shift :: 'l word))"

text \<open>
  \<open>#define MAX_SGL_ENTS ((4096 - sizeof(struct af_alg_tsgl)) / sizeof(struct scatterlist) - 1)\<close>.
  The two \<open>sizeof\<close> values depend on the target's layout and are parameters; the
  arithmetic is that of \<open>size_t\<close>.
\<close>

definition MAX_SGL_ENTS :: "'l::len word \<Rightarrow> 'l word \<Rightarrow> 'l word" where
  "MAX_SGL_ENTS sizeof_tsgl sizeof_sg = (4096 - sizeof_tsgl) div sizeof_sg - 1"

subsection \<open>Concrete socket states\<close>

text \<open>
  A socket with the given \<open>sk_sndbuf\<close>, \<open>sk_rcvbuf\<close>, \<open>used\<close> and \<open>rcvused\<close>, an
  empty TX list and all flags clear. The concrete instances below are stated with it.
\<close>

definition mk_alg_sock :: "c_int \<Rightarrow> c_int \<Rightarrow> 'l::len word \<Rightarrow> 'l word \<Rightarrow> 'l alg_sock" where
  "mk_alg_sock sndbuf rcvbuf u ru =
     \<lparr>sk = \<lparr>sk_sndbuf = sndbuf, sk_rcvbuf = rcvbuf\<rparr>, refcnt = 1, nokey_refcnt = 0,
      private_data = \<lparr>tsgl_list = [], aead_assoclen = 0, used = u, rcvused = ru,
                      more_data = False, merge = False, enc = False, len = 0\<rparr>\<rparr>"

section \<open>The operations the header only declares\<close>

text \<open>
  The header declares \<open>af_alg_make_sg\<close>, \<open>af_alg_free_sg\<close>, \<open>af_alg_sendmsg\<close>,
  \<open>af_alg_pull_tsgl\<close>, \<open>af_alg_get_rsgl\<close>, \<open>af_alg_alloc_areq\<close>,
  \<open>af_alg_free_areq_sgls\<close> and \<open>af_alg_accept\<close>; their bodies are in crypto/af_alg.c, which is not among the
  sources. The definitions of this section follow the specification's description of
  these operations (its sections 3, 4, 5 and 7), over the data structures of the header.
\<close>

text \<open>
  Modelled from the spec: the error kinds of its section 7; the header only uses
  \<open>int\<close> error returns.
\<close>

datatype error =
  ResourceExhausted | WouldBlock | Interrupted | KeyRequired | InvalidParameters | TransformFailed

subsection \<open>Buffer descriptor pool\<close>

text \<open>
  Modelled from the spec: the caller-supplied data source of a pin request ("e.g., an I/O
  vector", section 4.1; \<open>struct iov_iter\<close> is not under src/): a list of memory ranges,
  each with its page, offset, length, and whether the memory can be pinned.
\<close>

record user_range =
  ur_page :: nat
  ur_offset :: nat
  ur_len :: nat
  ur_pinnable :: bool

type_synonym iov_iter = "user_range list"

text \<open>The bytes a list of scatterlist entries refers to.\<close>

definition sg_bytes :: "scatterlist list \<Rightarrow> nat" where
  "sg_bytes sgs = sum_list (map sg_length sgs)"

text \<open>
  Modelled from the spec: the pinning loop of \<open>af_alg_make_sg\<close>, missing from src/.
  "Pins up to a fixed maximum number of memory ranges from a caller-supplied data source
  into one Descriptor Set, stopping at the requested length or the maximum entry count,
  whichever comes first. [...] Fails with ResourceExhausted if the underlying memory
  cannot be pinned." \<open>cap\<close> is the number of entries left, \<open>nbytes\<close> the bytes still
  requested.
\<close>

fun pin_ranges :: "nat \<Rightarrow> nat \<Rightarrow> iov_iter \<Rightarrow> error + scatterlist list" where
  "pin_ranges cap nbytes [] = Inr []"
| "pin_ranges cap nbytes (r # rs) =
     (if cap = 0 \<or> nbytes = 0 then Inr []
      else if \<not> ur_pinnable r then Inl ResourceExhausted
      else case pin_ranges (cap - 1) (nbytes - min nbytes (ur_len r)) rs of
             Inl e \<Rightarrow> Inl e
           | Inr sgs \<Rightarrow>
               Inr (\<lparr>sg_page = ur_page r, sg_offset = ur_offset r,
                     sg_length = min nbytes (ur_len r)\<rparr> # sgs))"

text \<open>
  Modelled from the spec: \<open>af_alg_make_sg(sgl, iter, len)\<close>, missing from src/. It
  fills the descriptor set with at most \<open>ALG_MAX_PAGES\<close> entries and "returns the
  number of bytes actually pinned (may be less than requested if the entry cap is hit)".
\<close>

definition af_alg_make_sg :: "iov_iter \<Rightarrow> nat \<Rightarrow> error + (nat \<times> af_alg_sgl)" where
  "af_alg_make_sg iter nbytes =
     (case pin_ranges ALG_MAX_PAGES nbytes iter of
        Inl e \<Rightarrow> Inl e
      | Inr sgs \<Rightarrow>
          Inr (sg_bytes sgs, \<lparr>sg = sgs, pages = map sg_page sgs, npages = length sgs\<rparr>))"

subsection \<open>Send-side accumulator\<close>

text \<open>The bytes held in a list of TX chunks.\<close>

definition tsgl_bytes :: "af_alg_tsgl list \<Rightarrow> nat" where
  "tsgl_bytes cs = sum_list (map (\<lambda>c. sg_bytes (tsg c)) cs)"

text \<open>
  Modelled from the spec: \<open>append(data, entry_budget)\<close> of section 4.2, missing from
  src/: it "pins bytes into a new TX Chunk, or merges into the tail chunk if merge is set
  and the tail has spare capacity".
\<close>

definition tsgl_append :: "nat \<Rightarrow> bool \<Rightarrow> scatterlist list \<Rightarrow> af_alg_tsgl list \<Rightarrow> af_alg_tsgl list" where
  "tsgl_append entry_budget mrg sgs cs =
     (if mrg \<and> cs \<noteq> [] \<and> cur (last cs) + length sgs \<le> entry_budget
      then butlast cs @ [\<lparr>cur = cur (last cs) + length sgs, tsg = tsg (last cs) @ sgs\<rparr>]
      else cs @ [\<lparr>cur = length sgs, tsg = sgs\<rparr>])"

text \<open>
  Modelled from the spec: the client write, \<open>af_alg_sendmsg\<close>, missing from src/, for a
  non-blocking caller. The writability guard is the header's \<open>af_alg_writable\<close>
  (section 5); "a write that would push used beyond the send quota is rejected with
  WouldBlock and accepted bytes from that call is 0" (section 8); pinning errors are
  "surfaced immediately without mutating accumulator state" (section 7); an accepted
  write appends the pinned bytes, "increases used", and records \<open>more\<close>; \<open>merge\<close> is
  "true only while the last chunk still has spare descriptor-entry capacity". The
  result is the bytes accepted or the error, and the socket after the call.
\<close>

definition af_alg_sendmsg ::
  "nat \<Rightarrow> nat \<Rightarrow> ('l::len) alg_sock \<Rightarrow> iov_iter \<Rightarrow> nat \<Rightarrow> bool \<Rightarrow> (error + nat) \<times> 'l alg_sock" where
  "af_alg_sendmsg page_shift entry_budget ask msg nbytes more_flag =
     (let ctx = private_data ask in
      if \<not> af_alg_writable page_shift ask then (Inl WouldBlock, ask)
      else if sint (snd_quota page_shift ask) < uint (used ctx) + int nbytes then (Inl WouldBlock, ask)
      else case af_alg_make_sg msg nbytes of
             Inl e \<Rightarrow> (Inl e, ask)
           | Inr (n, s) \<Rightarrow>
               (let cs = tsgl_append entry_budget (merge ctx) (sg s) (tsgl_list ctx) in
                (Inr n, ask\<lparr>private_data := ctx\<lparr>tsgl_list := cs,
                                                  used := used ctx + of_nat n,
                                                  more_data := more_flag,
                                                  merge := (cur (last cs) < entry_budget)\<rparr>\<rparr>)))"

text \<open>
  Modelled from the spec: \<open>detach(bytes)\<close> of section 4.2 on the entries of one TX
  chunk, missing from src/: it "removes exactly bytes worth of leading entries from the
  list, [...] splitting the last chunk if the boundary falls mid-chunk". The result is the
  detached entries, the entries that stay, and the bytes still to detach.
\<close>

fun pull_sg :: "nat \<Rightarrow> scatterlist list \<Rightarrow> scatterlist list \<times> scatterlist list \<times> nat" where
  "pull_sg n [] = ([], [], n)"
| "pull_sg n (e # es) =
     (if n = 0 then ([], e # es, 0)
      else if sg_length e \<le> n then
        (case pull_sg (n - sg_length e) es of (d, r, k) \<Rightarrow> (e # d, r, k))
      else ([e\<lparr>sg_length := n\<rparr>],
            e\<lparr>sg_offset := sg_offset e + n, sg_length := sg_length e - n\<rparr> # es, 0))"

text \<open>
  Modelled from the spec: the same over the list of TX chunks; a chunk whose entries are
  all detached is removed from the list.
\<close>

fun pull_chunks :: "nat \<Rightarrow> af_alg_tsgl list \<Rightarrow> scatterlist list \<times> af_alg_tsgl list \<times> nat" where
  "pull_chunks n [] = ([], [], n)"
| "pull_chunks n (c # cs) =
     (if n = 0 then ([], c # cs, 0)
      else case pull_sg n (tsg c) of
        (d, r, k) \<Rightarrow>
          if r = [] then (case pull_chunks k cs of (d', cs', k') \<Rightarrow> (d @ d', cs', k'))
          else (d, \<lparr>cur = length r, tsg = r\<rparr> # cs, k))"

text \<open>
  Modelled from the spec: \<open>af_alg_pull_tsgl(sk, used, dst, dst_offset)\<close>, missing from
  src/: the detached entries go to the request (\<open>dst\<close>), and "used decreases by the
  detached amount immediately (charged at detach, not at completion)". The detached
  amount is what the walk over the list took off the requested \<open>n\<close> bytes.
\<close>

definition af_alg_pull_tsgl :: "('l::len) alg_sock \<Rightarrow> nat \<Rightarrow> 'l alg_sock \<times> scatterlist list" where
  "af_alg_pull_tsgl ask n =
     (let ctx = private_data ask in
      case pull_chunks n (tsgl_list ctx) of
        (dst, cs, k) \<Rightarrow>
          (ask\<lparr>private_data := ctx\<lparr>tsgl_list := cs, used := used ctx - of_nat (n - k)\<rparr>\<rparr>, dst))"

subsection \<open>Receive-side collector\<close>

text \<open>
  Modelled from the spec: reserving \<open>n\<close> bytes of RX target raises \<open>rcvused\<close> by
  \<open>n\<close> ("increasing rcv_used", section 4.3).
\<close>

definition charge_rcvused :: "('l::len) alg_sock \<Rightarrow> nat \<Rightarrow> 'l alg_sock" where
  "charge_rcvused ask n =
     ask\<lparr>private_data := (private_data ask)\<lparr>rcvused := rcvused (private_data ask) + of_nat n\<rparr>\<rparr>"

text \<open>
  Modelled from the spec: the reservation loop of \<open>af_alg_get_rsgl\<close>, missing from
  src/. "Client supplies target memory ranges via reads; these are pinned into RX Chunks
  and appended, analogous to section 4.1, increasing rcv_used." Each round pins one
  descriptor set with \<open>af_alg_make_sg\<close>, records the bytes it reserved in
  \<open>sg_num_bytes\<close>, charges them to \<open>rcvused\<close>, and goes on with the rest of the
  source while bytes are still wanted and the header's \<open>af_alg_readable\<close> holds.
\<close>

function get_rsgl_loop ::
  "nat \<Rightarrow> ('l::len) alg_sock \<Rightarrow> iov_iter \<Rightarrow> nat \<Rightarrow> error + ('l alg_sock \<times> af_alg_rsgl list)" where
  "get_rsgl_loop page_shift ask iter maxsize =
     (if maxsize = 0 \<or> iter = [] \<or> \<not> af_alg_readable page_shift ask then Inr (ask, [])
      else case af_alg_make_sg iter maxsize of
        Inl e \<Rightarrow> Inl e
      | Inr (n, s) \<Rightarrow>
          if npages s = 0 then Inr (ask, [])
          else case get_rsgl_loop page_shift (charge_rcvused ask n)
                      (drop (npages s) iter) (maxsize - n) of
                 Inl e \<Rightarrow> Inl e
               | Inr (ask', rs) \<Rightarrow> Inr (ask', \<lparr>sgl = s, sg_num_bytes = n\<rparr> # rs))"
  by pat_completeness auto
termination
  by (relation "measure (\<lambda>(page_shift, ask, iter, maxsize). length iter)") auto

declare get_rsgl_loop.simps [simp del]

text \<open>The bytes reserved by a list of RX chunks.\<close>

definition rsgl_bytes :: "af_alg_rsgl list \<Rightarrow> nat" where
  "rsgl_bytes rs = sum_list (map sg_num_bytes rs)"

text \<open>
  Modelled from the spec: \<open>af_alg_get_rsgl(sk, msg, flags, areq, maxsize, outlen)\<close>,
  missing from src/: the reserved RX chunks are attached to the request and \<open>outlen\<close>
  is the number of bytes reserved. A pinning error is surfaced with the socket as it was
  (section 7).
\<close>

definition af_alg_get_rsgl ::
  "nat \<Rightarrow> ('l::len) alg_sock \<Rightarrow> iov_iter \<Rightarrow> af_alg_async_req \<Rightarrow> nat \<Rightarrow>
   error + ('l alg_sock \<times> af_alg_async_req \<times> nat)" where
  "af_alg_get_rsgl page_shift ask msg areq maxsize =
     (case get_rsgl_loop page_shift ask msg maxsize of
        Inl e \<Rightarrow> Inl e
      | Inr (ask', rs) \<Rightarrow> Inr (ask', areq\<lparr>rsgl_list := rsgl_list areq @ rs\<rparr>, rsgl_bytes rs))"

text \<open>
  Modelled from the spec: on completion the request's \<open>out_len\<close> is copied "into RX
  Chunks' bytes_filled in order" (section 4.5): each chunk holds as many of the
  remaining output bytes as it has room for.
\<close>

fun bytes_filled :: "nat \<Rightarrow> af_alg_rsgl list \<Rightarrow> nat list" where
  "bytes_filled n [] = []"
| "bytes_filled n (r # rs) =
     min n (sg_num_bytes r) # bytes_filled (n - min n (sg_num_bytes r)) rs"

text \<open>
  Modelled from the spec: the drain of the RX chunks of a request, missing from src/: a
  read "releases the chunk, and decreases rcv_used by the chunk's full reserved size (not
  just filled bytes)" (section 4.3), chunk by chunk from the head.
\<close>

fun free_rsgls :: "('l::len) af_alg_ctx \<Rightarrow> af_alg_rsgl list \<Rightarrow> 'l af_alg_ctx" where
  "free_rsgls ctx [] = ctx"
| "free_rsgls ctx (r # rs) =
     free_rsgls (ctx\<lparr>rcvused := rcvused ctx - of_nat (sg_num_bytes r)\<rparr>) rs"

text \<open>
  Modelled from the spec: \<open>af_alg_free_areq_sgls(areq)\<close>, missing from src/: it drains
  the RX chunks of the request and releases its TX entries. The result is the socket
  after the call, the request without its buffers, and the bytes handed to the caller.
\<close>

definition af_alg_free_areq_sgls ::
  "('l::len) alg_sock \<Rightarrow> af_alg_async_req \<Rightarrow> 'l alg_sock \<times> af_alg_async_req \<times> nat" where
  "af_alg_free_areq_sgls ask areq =
     (ask\<lparr>private_data := free_rsgls (private_data ask) (rsgl_list areq)\<rparr>,
      areq\<lparr>rsgl_list := [], tsgl := [], tsgl_entries := 0\<rparr>,
      sum_list (bytes_filled (outlen areq) (rsgl_list areq)))"

subsection \<open>Ownership of pinned memory over the life of a channel\<close>

text \<open>
  The memory ranges a descriptor set holds pinned: the first \<open>npages\<close> entries of its
  \<open>sg\<close> array, one for each page of \<open>pages\<close>.
\<close>

definition sgl_ranges :: "af_alg_sgl \<Rightarrow> scatterlist list" where
  "sgl_ranges s = take (npages s) (sg s)"

text \<open>
  Modelled from the spec: \<open>af_alg_free_sg(sgl)\<close>, missing from src/: "Releasing a
  Descriptor Set unpins all its ranges exactly once" (section 4.1). The result is the
  list of ranges the call unpins.
\<close>

definition af_alg_free_sg :: "af_alg_sgl \<Rightarrow> scatterlist list" where
  "af_alg_free_sg s = sgl_ranges s"

text \<open>
  Modelled from the spec: the ranges a call \<open>af_alg_make_sg(sgl, iter, len)\<close> pins:
  those of the descriptor set it returns, and none when it fails.
\<close>

definition made_ranges :: "iov_iter \<Rightarrow> nat \<Rightarrow> scatterlist list" where
  "made_ranges iter nbytes =
     (case af_alg_make_sg iter nbytes of Inl e \<Rightarrow> [] | Inr (n, s) \<Rightarrow> sgl_ranges s)"

text \<open>The ranges held by a list of TX chunks and by a list of RX chunks.\<close>

definition tsgl_ranges :: "af_alg_tsgl list \<Rightarrow> scatterlist list" where
  "tsgl_ranges cs = concat (map tsg cs)"

definition rsgl_ranges :: "af_alg_rsgl list \<Rightarrow> scatterlist list" where
  "rsgl_ranges rs = concat (map (\<lambda>r. sgl_ranges (sgl r)) rs)"

text \<open>
  Modelled from the spec: the RX chunks that the rounds of the reservation loop of
  \<open>af_alg_get_rsgl\<close> have pinned when the loop stops, whether it stops because the
  reservation is complete or because a later round fails to pin. It follows
  \<open>get_rsgl_loop\<close> round by round.
\<close>

function rsgl_reserved :: "nat \<Rightarrow> ('l::len) alg_sock \<Rightarrow> iov_iter \<Rightarrow> nat \<Rightarrow> af_alg_rsgl list" where
  "rsgl_reserved page_shift ask iter maxsize =
     (if maxsize = 0 \<or> iter = [] \<or> \<not> af_alg_readable page_shift ask then []
      else case af_alg_make_sg iter maxsize of
        Inl e \<Rightarrow> []
      | Inr (n, s) \<Rightarrow>
          if npages s = 0 then []
          else \<lparr>sgl = s, sg_num_bytes = n\<rparr> #
               rsgl_reserved page_shift (charge_rcvused ask n) (drop (npages s) iter) (maxsize - n))"
  by pat_completeness auto
termination
  by (relation "measure (\<lambda>(page_shift, ask, iter, maxsize). length iter)") auto

declare rsgl_reserved.simps [simp del]

text \<open>
  Modelled from the spec: the ranges \<open>af_alg_free_areq_sgls(areq)\<close> unpins: the TX
  entries detached into the request ("release the TX Descriptor Sets", section 4.5) and,
  through \<open>af_alg_free_sg\<close>, the descriptor set of each of its RX chunks.
\<close>

definition areq_ranges :: "af_alg_async_req \<Rightarrow> scatterlist list" where
  "areq_ranges areq = tsgl areq @ concat (map (\<lambda>r. af_alg_free_sg (sgl r)) (rsgl_list areq))"

text \<open>
  Modelled from the spec: \<open>af_alg_alloc_areq(sk, areqlen)\<close>, missing from src/: a new
  Request Object, which holds no buffers yet.
\<close>

definition af_alg_alloc_areq :: "nat \<Rightarrow> af_alg_async_req" where
  "af_alg_alloc_areq n = \<lparr>rsgl_list = [], tsgl = [], tsgl_entries = 0, outlen = 0, areqlen = n\<rparr>"

text \<open>
  Modelled from the spec: the state of a channel over its life (sections 3, 4.5, 4.6 and
  5; the code, crypto/af_alg.c and the algif modules, is missing from src/): the socket
  with its session context and TX list, the requests in flight, and whether the channel
  is closed. \<open>pinned\<close> and \<open>unpinned\<close> record the ranges handed to every pin call and to
  every unpin call made so far, in order.
\<close>

record (overloaded) 'l lifecycle =
  chan_sock :: "'l alg_sock"
  inflight :: "af_alg_async_req list"
  pinned :: "scatterlist list"
  unpinned :: "scatterlist list"
  closed :: bool

text \<open>
  Modelled from the spec: the steps of a channel, each atomic under the per-channel lock
  of section 5 and interleaved in any order.
  \<^item> \<open>Write msg nbytes more\<close>: a client write, \<open>af_alg_sendmsg\<close>. An accepted write
    pins the ranges of its \<open>af_alg_make_sg\<close> call into the TX list; a rejected one
    leaves the state as it was.
  \<^item> \<open>Read n msg maxsize\<close>: a client read that builds a request: it reserves up to
    \<open>maxsize\<close> bytes of RX target from \<open>msg\<close> with \<open>af_alg_get_rsgl\<close> and detaches
    \<open>n\<close> bytes of TX data with \<open>af_alg_pull_tsgl\<close>, which splits the entry at the
    boundary; the request goes in flight holding both. If a round of the reservation
    fails to pin, the RX sets pinned by the earlier rounds are released with
    \<open>af_alg_free_sg\<close> and the socket and the TX list stay as they were.
  \<^item> \<open>Complete i out\<close>: the engine's completion callback for the \<open>i\<close>-th request in
    flight, with \<open>out\<close> bytes of output and any status: \<open>af_alg_free_areq_sgls\<close>
    releases the buffers of the request, which is destroyed. It may come after the
    channel was closed.
  \<^item> \<open>Close\<close>: the TX chunks of the accumulator are released; the buffers of requests in
    flight are left to their completion, "the sole releaser".
\<close>

datatype event = Write iov_iter nat bool | Read nat iov_iter nat | Complete nat nat | Close

fun step :: "nat \<Rightarrow> nat \<Rightarrow> ('l::len) lifecycle \<Rightarrow> event \<Rightarrow> 'l lifecycle" where
  "step page_shift entry_budget s (Write msg nbytes more_flag) =
     (if closed s then s
      else case af_alg_sendmsg page_shift entry_budget (chan_sock s) msg nbytes more_flag of
             (Inl e, ask') \<Rightarrow> s
           | (Inr n, ask') \<Rightarrow>
               s\<lparr>chan_sock := ask', pinned := pinned s @ made_ranges msg nbytes\<rparr>)"
| "step page_shift entry_budget s (Read n msg maxsize) =
     (if closed s then s
      else
        let reserved = rsgl_reserved page_shift (chan_sock s) msg maxsize in
        case af_alg_get_rsgl page_shift (chan_sock s) msg (af_alg_alloc_areq 0) maxsize of
          Inl e \<Rightarrow>
            s\<lparr>pinned := pinned s @ rsgl_ranges reserved,
              unpinned := unpinned s @ concat (map (\<lambda>r. af_alg_free_sg (sgl r)) reserved)\<rparr>
        | Inr (ask1, areq, m) \<Rightarrow>
            (case af_alg_pull_tsgl ask1 n of
               (ask2, dst) \<Rightarrow>
                 s\<lparr>chan_sock := ask2,
                   inflight := inflight s @ [areq\<lparr>tsgl := dst, tsgl_entries := length dst\<rparr>],
                   pinned := pinned s @ rsgl_ranges reserved\<rparr>))"
| "step page_shift entry_budget s (Complete i out) =
     (if i < length (inflight s) then
        (case af_alg_free_areq_sgls (chan_sock s) ((inflight s ! i)\<lparr>outlen := out\<rparr>) of
           (ask', areq', m) \<Rightarrow>
             s\<lparr>chan_sock := ask',
               inflight := take i (inflight s) @ drop (Suc i) (inflight s),
               unpinned := unpinned s @ areq_ranges (inflight s ! i)\<rparr>)
      else s)"
| "step page_shift entry_budget s Close =
     (if closed s then s
      else
        let ctx = private_data (chan_sock s) in
        s\<lparr>chan_sock := (chan_sock s)\<lparr>private_data :=
                          ctx\<lparr>tsgl_list := [],
                              used := used ctx - of_nat (tsgl_bytes (tsgl_list ctx))\<rparr>\<rparr>,
          unpinned := unpinned s @ tsgl_ranges (tsgl_list ctx),
          closed := True\<rparr>)"

text \<open>
  Modelled from the spec: a channel starts open, with an empty TX list, no request in
  flight and nothing pinned; an execution is a sequence of events run from there.
\<close>

definition lifecycle_init :: "c_int \<Rightarrow> c_int \<Rightarrow> ('l::len) lifecycle" where
  "lifecycle_init sndbuf rcvbuf =
     \<lparr>chan_sock = mk_alg_sock sndbuf rcvbuf 0 0, inflight = [], pinned = [], unpinned = [],
      closed = False\<rparr>"

definition run :: "nat \<Rightarrow> nat \<Rightarrow> c_int \<Rightarrow> c_int \<Rightarrow> event list \<Rightarrow> ('l::len) lifecycle" where
  "run page_shift entry_budget sndbuf rcvbuf evs =
     foldl (step page_shift entry_budget) (lifecycle_init sndbuf rcvbuf) evs"

text \<open>
  The ranges with an owner: those of the TX list and those of the requests in flight.
\<close>

definition held :: "('l::len) lifecycle \<Rightarrow> scatterlist list" where
  "held s = tsgl_ranges (tsgl_list (private_data (chan_sock s))) @
            concat (map areq_ranges (inflight s))"

text \<open>
  Detaching splits a range between the request and the TX list, so the unit of pinned
  memory is the byte: a byte is named by its page and its offset in the page, and a
  range of \<open>sg_length\<close> bytes covers that many bytes from \<open>sg_offset\<close> on. A range
  without bytes is never split and counts as itself.
\<close>

datatype pin_unit = PinnedByte nat nat | EmptyRange nat nat

definition sg_units :: "scatterlist \<Rightarrow> pin_unit list" where
  "sg_units e =
     (if sg_length e = 0 then [EmptyRange (sg_page e) (sg_offset e)]
      else map (\<lambda>i. PinnedByte (sg_page e) (sg_offset e + i)) [0 ..< sg_length e])"

definition units :: "scatterlist list \<Rightarrow> pin_unit list" where
  "units es = concat (map sg_units es)"

text \<open>
  \<open>unit_count es u\<close> is the number of ranges of \<open>es\<close> that cover the unit \<open>u\<close>:
  for the ranges handed to pin calls, the number of times \<open>u\<close> was pinned.
\<close>

definition unit_count :: "scatterlist list \<Rightarrow> pin_unit \<Rightarrow> nat" where
  "unit_count es u = count_list (units es) u"

text \<open>
  The invariant of the lifecycle: every unit has been pinned as often as it has been
  unpinned or is held by an owner; a closed channel has an empty TX list.
\<close>

definition lifecycle_inv :: "('l::len) lifecycle \<Rightarrow> bool" where
  "lifecycle_inv s \<longleftrightarrow>
     (\<forall>u. unit_count (pinned s) u = unit_count (unpinned s) u + unit_count (held s) u) \<and>
     (closed s \<longrightarrow> tsgl_list (private_data (chan_sock s)) = [])"

subsection \<open>Type registry\<close>

text \<open>
  Modelled from the spec: the state of a channel that the key check of section 4.7 reads;
  the code of the check is missing from src/. The registry entry is the header's
  \<open>struct af_alg_type\<close>; "flags for whether a key is mandatory before first use" and
  whether a key has been set belong to the bound transform.
\<close>

record channel =
  ch_type :: af_alg_type
  key_mandatory :: bool
  key_set :: bool

text \<open>
  Modelled from the spec: a category "explicitly allows key-less acceptance" when its
  registry entry provides \<open>accept_nokey\<close> and \<open>ops_nokey\<close>.
\<close>

definition allows_nokey :: "af_alg_type \<Rightarrow> bool" where
  "allows_nokey t \<longleftrightarrow> has_accept_nokey t \<and> has_ops_nokey t"

text \<open>
  Modelled from the spec: a data operation on a channel, missing from src/: "operations
  attempted before a mandatory key is set fail with KeyRequired unless the category
  explicitly allows key-less acceptance"; otherwise the operation \<open>f\<close> runs.
\<close>

definition alg_data_op :: "channel \<Rightarrow> (channel \<Rightarrow> 'a) \<Rightarrow> error + 'a" where
  "alg_data_op ch f =
     (if key_mandatory ch \<and> \<not> key_set ch \<and> \<not> allows_nokey (ch_type ch)
      then Inl KeyRequired else Inr (f ch))"

text \<open>Modelled from the spec: \<open>set_key(channel, bytes)\<close> of section 6 records the key.\<close>

definition alg_setkey :: "channel \<Rightarrow> channel" where
  "alg_setkey ch = ch\<lparr>key_set := True\<rparr>"

text \<open>
  Modelled from the spec: the operations a client issues on a channel over time
  (\<open>set_key\<close> and data operations of section 6), and the results of running a
  sequence of them from a given channel state.
\<close>

datatype chan_op = SetKey | DataOp

fun chan_run :: "channel \<Rightarrow> chan_op list \<Rightarrow> (error + unit) list" where
  "chan_run ch [] = []"
| "chan_run ch (SetKey # ops) = Inr () # chan_run (alg_setkey ch) ops"
| "chan_run ch (DataOp # ops) = alg_data_op ch (\<lambda>_. ()) # chan_run ch ops"

text \<open>
  A channel is ready for data when no key is mandatory, the key is set, or its category
  allows key-less acceptance.
\<close>

definition key_ready :: "channel \<Rightarrow> bool" where
  "key_ready ch \<longleftrightarrow> \<not> key_mandatory ch \<or> key_set ch \<or> allows_nokey (ch_type ch)"

subsection \<open>Concrete inputs\<close>

text \<open>
  The inputs of the concrete instances below: a data source of \<open>k\<close> pinnable ranges of
  \<open>n\<close> bytes each; an empty request; a socket with 5000 bytes queued in one TX chunk;
  a request with one RX chunk of 250 reserved bytes of which the engine filled 10; a
  sequence of channel events, in which a read detaches 9 of the 10 bytes queued, a write
  fails to pin, a reservation fails to pin in its second round, and the request
  completes after close; a registry entry without and one with key-less acceptance.
\<close>

definition user_pages :: "nat \<Rightarrow> nat \<Rightarrow> iov_iter" where
  "user_pages k n = map (\<lambda>p. \<lparr>ur_page = p, ur_offset = 0, ur_len = n, ur_pinnable = True\<rparr>) [0 ..< k]"

definition areq_init :: af_alg_async_req where
  "areq_init = \<lparr>rsgl_list = [], tsgl = [], tsgl_entries = 0, outlen = 0, areqlen = 0\<rparr>"

definition queued_sock :: "64 alg_sock" where
  "queued_sock =
     \<lparr>sk = \<lparr>sk_sndbuf = 8192, sk_rcvbuf = 8192\<rparr>, refcnt = 1, nokey_refcnt = 0,
      private_data =
        \<lparr>tsgl_list = [\<lparr>cur = 2, tsg = [\<lparr>sg_page = 0, sg_offset = 0, sg_length = 4096\<rparr>,
                                         \<lparr>sg_page = 1, sg_offset = 0, sg_length = 904\<rparr>]\<rparr>],
         aead_assoclen = 0, used = 5000, rcvused = 0,
         more_data = True, merge = True, enc = False, len = 0\<rparr>\<rparr>"

definition areq_reserved :: af_alg_async_req where
  "areq_reserved =
     \<lparr>rsgl_list = [\<lparr>sgl = \<lparr>sg = [\<lparr>sg_page = 0, sg_offset = 0, sg_length = 100\<rparr>,
                                   \<lparr>sg_page = 1, sg_offset = 0, sg_length = 100\<rparr>,
                                   \<lparr>sg_page = 2, sg_offset = 0, sg_length = 50\<rparr>],
                             pages = [0, 1, 2], npages = 3\<rparr>,
                      sg_num_bytes = 250\<rparr>],
      tsgl = [], tsgl_entries = 0, outlen = 10, areqlen = 0\<rparr>"

definition evs_example :: "event list" where
  "evs_example =
     [Write [\<lparr>ur_page = 0, ur_offset = 0, ur_len = 8, ur_pinnable = True\<rparr>,
             \<lparr>ur_page = 5, ur_offset = 0, ur_len = 0, ur_pinnable = True\<rparr>,
             \<lparr>ur_page = 1, ur_offset = 0, ur_len = 8, ur_pinnable = True\<rparr>] 10 True,
      Read 9 [\<lparr>ur_page = 7, ur_offset = 0, ur_len = 5, ur_pinnable = True\<rparr>] 5,
      Write [\<lparr>ur_page = 8, ur_offset = 0, ur_len = 4, ur_pinnable = False\<rparr>] 4 True,
      Read 1 (map (\<lambda>p. \<lparr>ur_page = 20 + p, ur_offset = 0, ur_len = 1, ur_pinnable = True\<rparr>) [0 ..< 16] @
              [\<lparr>ur_page = 9, ur_offset = 0, ur_len = 4, ur_pinnable = False\<rparr>]) 20,
      Close,
      Write (user_pages 1 8) 8 True,
      Complete 0 3]"

definition type_keyed :: af_alg_type where
  "type_keyed = \<lparr>has_setkey = True, has_accept = True, has_accept_nokey = False,
     has_setauthsize = False, has_ops = True, has_ops_nokey = False, type_name = ''keyed''\<rparr>"

definition type_hash :: af_alg_type where
  "type_hash = \<lparr>has_setkey = True, has_accept = True, has_accept_nokey = True,
     has_setauthsize = False, has_ops = True, has_ops_nokey = True, type_name = ''hash''\<rparr>"

section \<open>Properties of the inline functions\<close>

subsection \<open>Reading the casts as integers\<close>

lemma sint_PAGE_SIZE:
  assumes "32 \<le> LENGTH('l::len)" "ps \<le> 30"
  shows "sint (ucast (PAGE_SIZE ps :: 'l word) :: c_int) = 2 ^ ps"
proof -
  have "(ucast (PAGE_SIZE ps :: 'l word) :: c_int) = push_bit ps 1"
    using assms by (intro bit_word_eqI) (auto simp: PAGE_SIZE_def bit_simps)
  moreover have "sint (push_bit ps 1 :: c_int) = 2 ^ ps"
  proof -
    have "(2::int) ^ ps \<le> 2 ^ 30" using assms(2) by (intro power_increasing) auto
    then have hi: "(2::int) ^ ps < 2 ^ 31" by simp
    have lo: "- (2 ^ 31) \<le> (2::int) ^ ps" by (rule order_trans [of _ 0]) simp_all
    from lo hi have "- (2 ^ 31) \<le> (2::int) ^ ps \<and> (2::int) ^ ps < 2 ^ 31" ..
    then have a: "signed_take_bit 31 ((2::int) ^ ps) = 2 ^ ps"
      by (simp only: signed_take_bit_int_eq_self_iff)
    have b: "(push_bit ps 1 :: c_int) = word_of_int (2 ^ ps)"
      by (simp only: push_bit_eq_mult word_of_int_2p mult_1)
    have c: "sint (word_of_int (2 ^ ps) :: c_int) = signed_take_bit 31 (2 ^ ps)"
      by (subst sint_sbintrunc') simp
    show ?thesis unfolding b c a ..
  qed
  ultimately show ?thesis by simp
qed

lemma ucast_and_PAGE_MASK:
  assumes "32 \<le> LENGTH('l::len)"
  shows "(ucast ((scast (s :: c_int) :: 'l word) AND PAGE_MASK ps) :: c_int) = s AND NOT (mask ps)"
  using assms
  by (intro bit_word_eqI) (auto simp: PAGE_MASK_def PAGE_SIZE_def bit_simps push_bit_eq_mult simp flip: mask_eq_exp_minus_1)

lemma int_and_not_mask: "(k :: int) AND NOT (mask n) = (k div 2 ^ n) * 2 ^ n"
proof -
  have "k AND NOT (mask n) = push_bit n (drop_bit n k)"
    by (rule bit_eqI) (auto simp: bit_simps)
  then show ?thesis by (simp add: push_bit_eq_mult drop_bit_eq_div)
qed

lemma sint_and_not_mask:
  assumes "ps \<le> 31"
  shows "sint ((s :: c_int) AND NOT (mask ps)) = (sint s div 2 ^ ps) * 2 ^ ps"
proof -
  have "sint (s AND NOT (mask ps)) = sint s AND NOT (mask ps)"
    using assms by (intro bit_eqI) (auto simp: bit_sint_iff bit_simps dest: bit_imp_le_length)
  then show ?thesis by (simp only: int_and_not_mask)
qed

lemma ucast_scast_diff:
  assumes "32 \<le> LENGTH('l::len)"
  shows "sint (ucast ((scast (q :: c_int) :: 'l word) - u) :: c_int) = signed_take_bit 31 (sint q - uint u)"
proof -
  have d: "is_down (ucast :: 'l word \<Rightarrow> c_int)" using assms by (simp add: is_down)
  have "(word_of_int (sint q - uint u) :: 'l word) = word_of_int (sint q) - word_of_int (uint u)"
    by (rule wi_hom_syms)
  also have "\<dots> = scast q - u" by (simp only: scast_eq word_of_int_uint)
  finally have eq: "(ucast ((scast q :: 'l word) - u) :: c_int) = word_of_int (sint q - uint u)"
    using ucast_down_wi [OF d, of "sint q - uint u"] by simp
  have "sint (word_of_int k :: c_int) = signed_take_bit 31 k" for k
    by (simp add: sint_sbintrunc')
  then show ?thesis unfolding eq .
qed

lemma sint_max_t_int: "sint (max_t_int x y) = max (sint x) (sint y)"
  by (simp add: max_t_int_def word_sless_alt max_def)

lemma sint_snd_quota:
  assumes "32 \<le> LENGTH('l::len)" "ps \<le> 30"
  shows "sint (snd_quota ps (ask :: 'l alg_sock)) =
         max ((sint (sk_sndbuf (sk ask)) div 2 ^ ps) * 2 ^ ps) (2 ^ ps)"
  using assms
  by (simp add: snd_quota_def sint_max_t_int ucast_and_PAGE_MASK sint_and_not_mask sint_PAGE_SIZE)

lemma sint_rcv_quota:
  assumes "32 \<le> LENGTH('l::len)" "ps \<le> 30"
  shows "sint (rcv_quota ps (ask :: 'l alg_sock)) =
         max ((sint (sk_rcvbuf (sk ask)) div 2 ^ ps) * 2 ^ ps) (2 ^ ps)"
  using assms
  by (simp add: rcv_quota_def sint_max_t_int ucast_and_PAGE_MASK sint_and_not_mask sint_PAGE_SIZE)

lemma af_alg_sndbuf_quota:
  "af_alg_sndbuf ps (ask :: ('l::len) alg_sock) =
     max_t_int (ucast ((scast (snd_quota ps ask) :: 'l word) - used (private_data ask))) 0"
  by (simp add: af_alg_sndbuf_def snd_quota_def)

lemma af_alg_rcvbuf_quota:
  "af_alg_rcvbuf ps (ask :: ('l::len) alg_sock) =
     max_t_int (ucast ((scast (rcv_quota ps ask) :: 'l word) - rcvused (private_data ask))) 0"
  by (simp add: af_alg_rcvbuf_def rcv_quota_def)

lemma sint_af_alg_sndbuf:
  assumes "32 \<le> LENGTH('l::len)"
  shows "sint (af_alg_sndbuf ps (ask :: 'l alg_sock)) =
         max (signed_take_bit 31 (sint (snd_quota ps ask) - uint (used (private_data ask)))) 0"
  using assms by (simp add: af_alg_sndbuf_quota sint_max_t_int ucast_scast_diff)

lemma sint_af_alg_rcvbuf:
  assumes "32 \<le> LENGTH('l::len)"
  shows "sint (af_alg_rcvbuf ps (ask :: 'l alg_sock)) =
         max (signed_take_bit 31 (sint (rcv_quota ps ask) - uint (rcvused (private_data ask)))) 0"
  using assms by (simp add: af_alg_rcvbuf_quota sint_max_t_int ucast_scast_diff)

lemma uint_PAGE_SIZE:
  assumes "ps < LENGTH('l::len)"
  shows "uint (PAGE_SIZE ps :: 'l word) = 2 ^ ps"
proof -
  have "(2::int) ^ ps < 2 ^ LENGTH('l)" using assms by (intro power_strict_increasing) auto
  then have "take_bit LENGTH('l) ((2::int) ^ ps) = 2 ^ ps"
    by (simp add: take_bit_int_eq_self)
  moreover have "(PAGE_SIZE ps :: 'l word) = word_of_int (2 ^ ps)"
    by (simp only: PAGE_SIZE_def push_bit_eq_mult word_of_int_2p mult_1)
  ultimately show ?thesis by (simp only: uint_word_of_int_eq)
qed

lemma uint_scast_nonneg:
  assumes "32 \<le> LENGTH('l::len)" "0 \<le> sint (r :: c_int)"
  shows "uint (scast r :: 'l word) = sint r"
proof -
  have "sint r < 2 ^ 31" using sint_lt [of r] by simp
  also have "(2::int) ^ 31 \<le> 2 ^ LENGTH('l)" using assms(1) by (intro power_increasing) auto
  finally have "sint r < 2 ^ LENGTH('l)" .
  with assms(2) have "take_bit LENGTH('l) (sint r) = sint r"
    by (simp add: take_bit_int_eq_self)
  then show ?thesis by (simp only: scast_eq uint_word_of_int_eq)
qed

lemma PAGE_SIZE_le_scast_iff:
  assumes "32 \<le> LENGTH('l::len)" "ps \<le> 30" "0 \<le> sint (r :: c_int)"
  shows "(PAGE_SIZE ps :: 'l word) \<le> scast r \<longleftrightarrow> 2 ^ ps \<le> sint r"
proof -
  have "ps < LENGTH('l)" using assms by simp
  then show ?thesis
    using assms by (simp add: word_le_def uint_PAGE_SIZE uint_scast_nonneg)
qed

lemma af_alg_writable_iff:
  assumes "32 \<le> LENGTH('l::len)" "ps \<le> 30"
  shows "af_alg_writable ps (ask :: 'l alg_sock) \<longleftrightarrow> 2 ^ ps \<le> sint (af_alg_sndbuf ps ask)"
proof -
  have "0 \<le> sint (af_alg_sndbuf ps ask)" using assms(1) by (simp add: sint_af_alg_sndbuf)
  from PAGE_SIZE_le_scast_iff [OF assms this] show ?thesis
    by (simp only: af_alg_writable_def)
qed

lemma af_alg_readable_iff:
  assumes "32 \<le> LENGTH('l::len)" "ps \<le> 30"
  shows "af_alg_readable ps (ask :: 'l alg_sock) \<longleftrightarrow> 2 ^ ps \<le> sint (af_alg_rcvbuf ps ask)"
proof -
  have "0 \<le> sint (af_alg_rcvbuf ps ask)" using assms(1) by (simp add: sint_af_alg_rcvbuf)
  from PAGE_SIZE_le_scast_iff [OF assms this] show ?thesis
    by (simp only: af_alg_readable_def)
qed


lemma stb31_self:
  assumes "- (2 ^ 31) \<le> (k::int)" "k < 2 ^ 31"
  shows "signed_take_bit 31 k = k"
  using assms by (simp only: signed_take_bit_int_eq_self_iff)

lemma headroom_exact:
  assumes "uint (u :: 'l::len word) \<le> sint (q :: c_int) + 2 ^ 31"
  shows "signed_take_bit 31 (sint q - uint u) = sint q - uint u"
proof (rule stb31_self)
  show "- (2 ^ 31) \<le> sint q - uint u" using assms by simp
  have "sint q < 2 ^ 31" using sint_lt [of q] by simp
  moreover have "0 \<le> uint u" by simp
  ultimately show "sint q - uint u < 2 ^ 31" by linarith
qed

lemma c_int_eq_0_iff: "(r :: c_int) = 0 \<longleftrightarrow> sint r = 0"
  using word_eq_iff_signed [where ?'a = int, of r 0] by simp

lemma snd_quota_cong:
  fixes ask1 ask2 :: "'l::len alg_sock"
  shows "sk ask1 = sk ask2 \<Longrightarrow> snd_quota ps ask1 = snd_quota ps ask2"
  by (simp add: snd_quota_def)

lemma rcv_quota_cong:
  fixes ask1 ask2 :: "'l::len alg_sock"
  shows "sk ask1 = sk ask2 \<Longrightarrow> rcv_quota ps ask1 = rcv_quota ps ask2"
  by (simp add: rcv_quota_def)

lemma scast_mono_nonneg:
  assumes "32 \<le> LENGTH('l::len)" "0 \<le> sint (r2 :: c_int)" "sint r2 \<le> sint (r1 :: c_int)"
  shows "(scast r2 :: 'l word) \<le> scast r1"
  using assms by (simp add: word_le_def uint_scast_nonneg)

lemma headroom_antitone:
  assumes "(u1 :: 'l::len word) \<le> u2" "uint u2 \<le> sint (q :: c_int) + 2 ^ 31"
  shows "max (signed_take_bit 31 (sint q - uint u2)) 0 \<le> max (signed_take_bit 31 (sint q - uint u1)) 0"
proof -
  have le: "uint u1 \<le> uint u2" using assms(1) by (simp add: word_le_def)
  then have "uint u1 \<le> sint q + 2 ^ 31" using assms(2) by simp
  then show ?thesis
    using le by (simp add: headroom_exact [OF assms(2)] headroom_exact)
qed

subsection \<open>Evaluating concrete sockets\<close>

lemmas eval_defs = af_alg_sndbuf_def af_alg_rcvbuf_def snd_quota_def rcv_quota_def mk_alg_sock_def
  PAGE_MASK_def PAGE_SIZE_def max_t_int_def word_sless_alt af_alg_writable_def af_alg_readable_def


section \<open>The claims about the inline functions\<close>

text \<open>
  C2. \<open>af_alg_sndbuf\<close> returns the send quota minus \<open>ctx->used\<close>, clamped at 0, and
  \<open>af_alg_rcvbuf\<close> the receive quota minus \<open>ctx->rcvused\<close>, clamped at 0; neither
  is ever negative, and each is 0 once the counter has reached its quota. The quota is the
  value of the inner \<open>max_t\<close>, \<open>snd_quota\<close> or \<open>rcv_quota\<close>.

  As stated, for every socket state, this fails: the difference is computed in
  \<open>size_t\<close> and cast to \<open>int\<close>, so a counter more than \<open>2^31\<close> above the quota
  wraps to a positive result. With \<open>sk_sndbuf = 4096\<close> and \<open>used = 2^31 + 4097\<close> the
  function returns \<open>INT_MAX\<close>, not 0.
\<close>

theorem af_alg_sndbuf_wraps_counterexample:
  "sint (snd_quota 12 (mk_alg_sock 4096 4096 (2147487745 :: 64 word) 0)) = 4096 \<and>
   uint (used (private_data (mk_alg_sock 4096 4096 (2147487745 :: 64 word) 0))) = 2147487745 \<and>
   af_alg_sndbuf 12 (mk_alg_sock 4096 4096 (2147487745 :: 64 word) 0) = 2147483647 \<and>
   sint (snd_quota 12 (mk_alg_sock 4096 4096 (2147487745 :: 32 word) 0)) = 4096 \<and>
   uint (used (private_data (mk_alg_sock 4096 4096 (2147487745 :: 32 word) 0))) = 2147487745 \<and>
   af_alg_sndbuf 12 (mk_alg_sock 4096 4096 (2147487745 :: 32 word) 0) = 2147483647"
  by (simp add: eval_defs)

text \<open>
  C2, amended. The result is never negative, for every socket state. The quota is at
  least \<open>PAGE_SIZE\<close>. Whenever the counter is at most \<open>2^31\<close> above its quota (so
  for every counter up to \<open>INT_MAX\<close>), the result is exactly the quota minus the
  counter clamped at 0, and it is 0 once the counter has reached the quota.
\<close>

theorem af_alg_buf_clamped_headroom:
  fixes ask :: "'l::len alg_sock"
  assumes "32 \<le> LENGTH('l)" and "page_shift \<le> 30"
  shows "0 \<le> sint (af_alg_sndbuf page_shift ask) \<and> 0 \<le> sint (af_alg_rcvbuf page_shift ask) \<and>
    2 ^ page_shift \<le> sint (snd_quota page_shift ask) \<and>
    2 ^ page_shift \<le> sint (rcv_quota page_shift ask) \<and>
    (uint (used (private_data ask)) \<le> sint (snd_quota page_shift ask) + 2 ^ 31 \<longrightarrow>
       sint (af_alg_sndbuf page_shift ask) =
         max (sint (snd_quota page_shift ask) - uint (used (private_data ask))) 0 \<and>
       (sint (snd_quota page_shift ask) \<le> uint (used (private_data ask)) \<longrightarrow>
          af_alg_sndbuf page_shift ask = 0)) \<and>
    (uint (rcvused (private_data ask)) \<le> sint (rcv_quota page_shift ask) + 2 ^ 31 \<longrightarrow>
       sint (af_alg_rcvbuf page_shift ask) =
         max (sint (rcv_quota page_shift ask) - uint (rcvused (private_data ask))) 0 \<and>
       (sint (rcv_quota page_shift ask) \<le> uint (rcvused (private_data ask)) \<longrightarrow>
          af_alg_rcvbuf page_shift ask = 0))"
proof -
  have qs: "2 ^ page_shift \<le> sint (snd_quota page_shift ask)"
    unfolding sint_snd_quota [OF assms] by (rule max.cobounded2)
  have qr: "2 ^ page_shift \<le> sint (rcv_quota page_shift ask)"
    unfolding sint_rcv_quota [OF assms] by (rule max.cobounded2)
  have nn: "0 \<le> sint (af_alg_sndbuf page_shift ask)" "0 \<le> sint (af_alg_rcvbuf page_shift ask)"
    using assms(1) by (simp_all add: sint_af_alg_sndbuf sint_af_alg_rcvbuf)
  have s: "sint (af_alg_sndbuf page_shift ask) =
             max (sint (snd_quota page_shift ask) - uint (used (private_data ask))) 0 \<and>
           (sint (snd_quota page_shift ask) \<le> uint (used (private_data ask)) \<longrightarrow>
              af_alg_sndbuf page_shift ask = 0)"
    if "uint (used (private_data ask)) \<le> sint (snd_quota page_shift ask) + 2 ^ 31"
    using that assms(1) by (simp add: sint_af_alg_sndbuf headroom_exact c_int_eq_0_iff)
  have r: "sint (af_alg_rcvbuf page_shift ask) =
             max (sint (rcv_quota page_shift ask) - uint (rcvused (private_data ask))) 0 \<and>
           (sint (rcv_quota page_shift ask) \<le> uint (rcvused (private_data ask)) \<longrightarrow>
              af_alg_rcvbuf page_shift ask = 0)"
    if "uint (rcvused (private_data ask)) \<le> sint (rcv_quota page_shift ask) + 2 ^ 31"
    using that assms(1) by (simp add: sint_af_alg_rcvbuf headroom_exact c_int_eq_0_iff)
  from qs qr nn s r show ?thesis by blast
qed

theorem af_alg_buf_clamped_headroom_witness:
  "32 \<le> LENGTH(64) \<and> (12::nat) \<le> 30 \<and>
   uint (used (private_data (mk_alg_sock 212992 8192 (5000 :: 64 word) 8192))) \<le> sint (snd_quota 12 (mk_alg_sock 212992 8192 (5000 :: 64 word) 8192)) + 2 ^ 31 \<and>
   sint (af_alg_sndbuf 12 (mk_alg_sock 212992 8192 (5000 :: 64 word) 8192)) = 207992 \<and>
   uint (rcvused (private_data (mk_alg_sock 212992 8192 (5000 :: 64 word) 8192))) \<le> sint (rcv_quota 12 (mk_alg_sock 212992 8192 (5000 :: 64 word) 8192)) + 2 ^ 31 \<and>
   sint (rcv_quota 12 (mk_alg_sock 212992 8192 (5000 :: 64 word) 8192)) \<le> uint (rcvused (private_data (mk_alg_sock 212992 8192 (5000 :: 64 word) 8192))) \<and>
   af_alg_rcvbuf 12 (mk_alg_sock 212992 8192 (5000 :: 64 word) 8192) = 0"
  using af_alg_buf_clamped_headroom [where ask = "mk_alg_sock 212992 8192 (5000 :: 64 word) 8192" and page_shift = 12]
  by (simp add: snd_quota_def rcv_quota_def mk_alg_sock_def PAGE_MASK_def PAGE_SIZE_def max_t_int_def word_sless_alt)


text \<open>
  C8. The quotas that \<open>af_alg_sndbuf\<close> and \<open>af_alg_rcvbuf\<close> subtract from are
  \<open>sk_sndbuf\<close> and \<open>sk_rcvbuf\<close> rounded down to a multiple of \<open>PAGE_SIZE\<close> and
  raised to at least \<open>PAGE_SIZE\<close>. So with \<open>used = 0\<close> the headroom is the whole
  quota and the socket is writable, and with \<open>rcvused = 0\<close> it is readable, however
  small (or negative) the configured buffer sizes are.
\<close>

theorem quota_page_granular_idle_ready:
  fixes ask :: "'l::len alg_sock"
  assumes "32 \<le> LENGTH('l)" and "page_shift \<le> 30"
  shows "sint (snd_quota page_shift ask) =
           max ((sint (sk_sndbuf (sk ask)) div 2 ^ page_shift) * 2 ^ page_shift) (2 ^ page_shift) \<and>
         sint (rcv_quota page_shift ask) =
           max ((sint (sk_rcvbuf (sk ask)) div 2 ^ page_shift) * 2 ^ page_shift) (2 ^ page_shift) \<and>
         (used (private_data ask) = 0 \<longrightarrow>
            af_alg_sndbuf page_shift ask = snd_quota page_shift ask \<and> af_alg_writable page_shift ask) \<and>
         (rcvused (private_data ask) = 0 \<longrightarrow>
            af_alg_rcvbuf page_shift ask = rcv_quota page_shift ask \<and> af_alg_readable page_shift ask)"
proof -
  note q = sint_snd_quota [OF assms, of ask] sint_rcv_quota [OF assms, of ask]
  have pos: "0 < (2::int) ^ page_shift" by simp
  have s: "af_alg_sndbuf page_shift ask = snd_quota page_shift ask"
    if "used (private_data ask) = 0"
  proof -
    have "(2::int) ^ page_shift \<le> sint (snd_quota page_shift ask)"
      unfolding q(1) by (rule max.cobounded2)
    with pos have "0 < sint (snd_quota page_shift ask)" by (rule less_le_trans)
    moreover have "uint (0 :: 'l word) \<le> sint (snd_quota page_shift ask) + 2 ^ 31"
      using calculation by simp
    ultimately have "sint (af_alg_sndbuf page_shift ask) = sint (snd_quota page_shift ask)"
      using that assms(1) headroom_exact [of "0 :: 'l word" "snd_quota page_shift ask"]
      by (simp add: sint_af_alg_sndbuf)
    then show ?thesis by (rule signed_word_eqI)
  qed
  have r: "af_alg_rcvbuf page_shift ask = rcv_quota page_shift ask"
    if "rcvused (private_data ask) = 0"
  proof -
    have "(2::int) ^ page_shift \<le> sint (rcv_quota page_shift ask)"
      unfolding q(2) by (rule max.cobounded2)
    with pos have "0 < sint (rcv_quota page_shift ask)" by (rule less_le_trans)
    moreover have "uint (0 :: 'l word) \<le> sint (rcv_quota page_shift ask) + 2 ^ 31"
      using calculation by simp
    ultimately have "sint (af_alg_rcvbuf page_shift ask) = sint (rcv_quota page_shift ask)"
      using that assms(1) headroom_exact [of "0 :: 'l word" "rcv_quota page_shift ask"]
      by (simp add: sint_af_alg_rcvbuf)
    then show ?thesis by (rule signed_word_eqI)
  qed
  have w: "af_alg_writable page_shift ask" if "used (private_data ask) = 0"
    using s [OF that] q(1) by (simp add: af_alg_writable_iff [OF assms])
  have rd: "af_alg_readable page_shift ask" if "rcvused (private_data ask) = 0"
    using r [OF that] q(2) by (simp add: af_alg_readable_iff [OF assms])
  from q s r w rd show ?thesis by blast
qed


theorem quota_page_granular_idle_ready_witness:
  "32 \<le> LENGTH(64) \<and> (12::nat) \<le> 30 \<and>
   used (private_data (mk_alg_sock 1 (- 5) (0 :: 64 word) 0)) = 0 \<and>
   rcvused (private_data (mk_alg_sock 1 (- 5) (0 :: 64 word) 0)) = 0 \<and>
   sint (snd_quota 12 (mk_alg_sock 1 (- 5) (0 :: 64 word) 0)) = 4096 \<and>
   sint (rcv_quota 12 (mk_alg_sock 1 (- 5) (0 :: 64 word) 0)) = 4096 \<and>
   af_alg_writable 12 (mk_alg_sock 1 (- 5) (0 :: 64 word) 0) \<and>
   af_alg_readable 12 (mk_alg_sock 1 (- 5) (0 :: 64 word) 0)"
  using quota_page_granular_idle_ready [where ask = "mk_alg_sock 1 (- 5) (0 :: 64 word) 0" and page_shift = 12]
  by (simp add: mk_alg_sock_def)


text \<open>
  C9. \<open>af_alg_sndbuf\<close> is antitone in \<open>ctx->used\<close>: for a fixed \<open>sk_sndbuf\<close> and
  \<open>u1 \<le> u2\<close> the headroom at \<open>u1\<close> is at least the headroom at \<open>u2\<close>, so a socket
  writable at \<open>u2\<close> is writable at \<open>u1\<close>; the same for \<open>af_alg_rcvbuf\<close>,
  \<open>af_alg_readable\<close> and \<open>ctx->rcvused\<close>.

  As stated, for any two usage values, this fails by the same wrap-around of the cast to
  \<open>int\<close>: with \<open>sk_sndbuf = 4096\<close> on a 64-bit target, \<open>used = 4096\<close> leaves no
  headroom, and the larger \<open>used = 2^32\<close> leaves 4096 bytes and a writable socket.
\<close>

theorem af_alg_sndbuf_not_antitone_counterexample:
  "sk (mk_alg_sock 4096 4096 (4096 :: 64 word) 0) = sk (mk_alg_sock 4096 4096 (4294967296 :: 64 word) 0) \<and>
   used (private_data (mk_alg_sock 4096 4096 (4096 :: 64 word) 0)) \<le> used (private_data (mk_alg_sock 4096 4096 (4294967296 :: 64 word) 0)) \<and>
   sint (af_alg_sndbuf 12 (mk_alg_sock 4096 4096 (4096 :: 64 word) 0)) < sint (af_alg_sndbuf 12 (mk_alg_sock 4096 4096 (4294967296 :: 64 word) 0)) \<and>
   af_alg_writable 12 (mk_alg_sock 4096 4096 (4294967296 :: 64 word) 0) \<and>
   \<not> af_alg_writable 12 (mk_alg_sock 4096 4096 (4096 :: 64 word) 0)"
  by (simp add: eval_defs)


text \<open>
  C9, amended. For two sockets with the same \<open>struct sock\<close> fields and counters
  \<open>u1 \<le> u2\<close>, where \<open>u2\<close> is at most \<open>2^31\<close> above the quota (the quota is at
  least \<open>PAGE_SIZE\<close>, so for all counters up to \<open>INT_MAX\<close>): the headroom at
  \<open>u1\<close> is at least the headroom at \<open>u2\<close>, and writable (readable) at \<open>u2\<close>
  implies writable (readable) at \<open>u1\<close>.
\<close>

theorem af_alg_buf_antitone_in_range:
  fixes ask1 ask2 :: "'l::len alg_sock"
  assumes "32 \<le> LENGTH('l)" and "page_shift \<le> 30" and "sk ask1 = sk ask2"
  shows "2 ^ page_shift \<le> sint (snd_quota page_shift ask2) \<and>
         2 ^ page_shift \<le> sint (rcv_quota page_shift ask2) \<and>
         (used (private_data ask1) \<le> used (private_data ask2) \<and>
          uint (used (private_data ask2)) \<le> sint (snd_quota page_shift ask2) + 2 ^ 31 \<longrightarrow>
            sint (af_alg_sndbuf page_shift ask2) \<le> sint (af_alg_sndbuf page_shift ask1) \<and>
            (af_alg_writable page_shift ask2 \<longrightarrow> af_alg_writable page_shift ask1)) \<and>
         (rcvused (private_data ask1) \<le> rcvused (private_data ask2) \<and>
          uint (rcvused (private_data ask2)) \<le> sint (rcv_quota page_shift ask2) + 2 ^ 31 \<longrightarrow>
            sint (af_alg_rcvbuf page_shift ask2) \<le> sint (af_alg_rcvbuf page_shift ask1) \<and>
            (af_alg_readable page_shift ask2 \<longrightarrow> af_alg_readable page_shift ask1))"
proof -
  have snd: "sint (af_alg_sndbuf page_shift ask2) \<le> sint (af_alg_sndbuf page_shift ask1)"
    if "used (private_data ask1) \<le> used (private_data ask2)"
      "uint (used (private_data ask2)) \<le> sint (snd_quota page_shift ask2) + 2 ^ 31"
    using headroom_antitone [OF that] assms(1)
    by (simp only: sint_af_alg_sndbuf snd_quota_cong [OF assms(3)])
  have rcv: "sint (af_alg_rcvbuf page_shift ask2) \<le> sint (af_alg_rcvbuf page_shift ask1)"
    if "rcvused (private_data ask1) \<le> rcvused (private_data ask2)"
      "uint (rcvused (private_data ask2)) \<le> sint (rcv_quota page_shift ask2) + 2 ^ 31"
    using headroom_antitone [OF that] assms(1)
    by (simp only: sint_af_alg_rcvbuf rcv_quota_cong [OF assms(3)])
  have w: "af_alg_writable page_shift ask1"
    if "sint (af_alg_sndbuf page_shift ask2) \<le> sint (af_alg_sndbuf page_shift ask1)"
      "af_alg_writable page_shift ask2"
  proof -
    have "0 \<le> sint (af_alg_sndbuf page_shift ask2)" using assms(1) by (simp add: sint_af_alg_sndbuf)
    from scast_mono_nonneg [OF assms(1) this that(1)] that(2) show ?thesis
      unfolding af_alg_writable_def by (rule order_trans [rotated])
  qed
  have r: "af_alg_readable page_shift ask1"
    if "sint (af_alg_rcvbuf page_shift ask2) \<le> sint (af_alg_rcvbuf page_shift ask1)"
      "af_alg_readable page_shift ask2"
  proof -
    have "0 \<le> sint (af_alg_rcvbuf page_shift ask2)" using assms(1) by (simp add: sint_af_alg_rcvbuf)
    from scast_mono_nonneg [OF assms(1) this that(1)] that(2) show ?thesis
      unfolding af_alg_readable_def by (rule order_trans [rotated])
  qed
  have qs: "2 ^ page_shift \<le> sint (snd_quota page_shift ask2)"
    unfolding sint_snd_quota [OF assms(1,2)] by (rule max.cobounded2)
  have qr: "2 ^ page_shift \<le> sint (rcv_quota page_shift ask2)"
    unfolding sint_rcv_quota [OF assms(1,2)] by (rule max.cobounded2)
  from qs qr snd rcv w r show ?thesis by blast
qed


theorem af_alg_buf_antitone_in_range_witness:
  "32 \<le> LENGTH(64) \<and> (12::nat) \<le> 30 \<and>
   sk (mk_alg_sock 8192 8192 (100 :: 64 word) 0) = sk (mk_alg_sock 8192 8192 (4096 :: 64 word) 8000) \<and>
   used (private_data (mk_alg_sock 8192 8192 (100 :: 64 word) 0)) \<le> used (private_data (mk_alg_sock 8192 8192 (4096 :: 64 word) 8000)) \<and>
   uint (used (private_data (mk_alg_sock 8192 8192 (4096 :: 64 word) 8000))) \<le> sint (snd_quota 12 (mk_alg_sock 8192 8192 (4096 :: 64 word) 8000)) + 2 ^ 31 \<and>
   rcvused (private_data (mk_alg_sock 8192 8192 (100 :: 64 word) 0)) \<le> rcvused (private_data (mk_alg_sock 8192 8192 (4096 :: 64 word) 8000)) \<and>
   uint (rcvused (private_data (mk_alg_sock 8192 8192 (4096 :: 64 word) 8000))) \<le> sint (rcv_quota 12 (mk_alg_sock 8192 8192 (4096 :: 64 word) 8000)) + 2 ^ 31 \<and>
   af_alg_writable 12 (mk_alg_sock 8192 8192 (4096 :: 64 word) 8000) \<and>
   af_alg_writable 12 (mk_alg_sock 8192 8192 (100 :: 64 word) 0) \<and>
   sint (af_alg_sndbuf 12 (mk_alg_sock 8192 8192 (4096 :: 64 word) 8000)) \<le> sint (af_alg_sndbuf 12 (mk_alg_sock 8192 8192 (100 :: 64 word) 0)) \<and>
   sint (af_alg_rcvbuf 12 (mk_alg_sock 8192 8192 (4096 :: 64 word) 8000)) \<le> sint (af_alg_rcvbuf 12 (mk_alg_sock 8192 8192 (100 :: 64 word) 0))"
  using af_alg_buf_antitone_in_range [where ?ask1.0 = "mk_alg_sock 8192 8192 (100 :: 64 word) 0" and ?ask2.0 = "mk_alg_sock 8192 8192 (4096 :: 64 word) 8000" and page_shift = 12]
  by (simp add: snd_quota_def rcv_quota_def mk_alg_sock_def PAGE_MASK_def PAGE_SIZE_def max_t_int_def word_sless_alt af_alg_writable_def af_alg_sndbuf_def)


text \<open>
  C10. \<open>MAX_SGL_ENTS\<close> makes one TX SGL node, with one scatterlist slot more than
  \<open>MAX_SGL_ENTS\<close>, fit into 4096 bytes:
  \<open>sizeof(struct af_alg_tsgl) + (MAX_SGL_ENTS + 1) * sizeof(struct scatterlist) \<le> 4096\<close>,
  and no larger entry count does. The two sizes are those of the target, where a
  scatterlist entry is not empty and the node header and one entry fit into the page
  (24 and 32 bytes on x86-64).
\<close>

theorem MAX_SGL_ENTS_fits_page:
  fixes sizeof_tsgl sizeof_sg :: "'l::len word"
  assumes "13 \<le> LENGTH('l)" and "0 < unat sizeof_sg"
    and "unat sizeof_tsgl + unat sizeof_sg \<le> 4096"
  shows "unat sizeof_tsgl + (unat (MAX_SGL_ENTS sizeof_tsgl sizeof_sg) + 1) * unat sizeof_sg \<le> 4096 \<and>
         (\<forall>n. unat sizeof_tsgl + (n + 1) * unat sizeof_sg \<le> 4096 \<longrightarrow>
              n \<le> unat (MAX_SGL_ENTS sizeof_tsgl sizeof_sg))"
proof -
  let ?T = "unat sizeof_tsgl" and ?S = "unat sizeof_sg"
  have "(2::nat) ^ 13 \<le> 2 ^ LENGTH('l)" using assms(1) by (intro power_increasing) auto
  then have big: "(4096::nat) < 2 ^ LENGTH('l)" by simp
  then have u4096: "unat (4096 :: 'l word) = 4096"
    by (simp add: unat_eq_nat_uint take_bit_nat_eq_self unsigned_numeral)
  have Tle: "?T \<le> 4096" using assms(3) by simp
  then have "sizeof_tsgl \<le> 4096" unfolding word_le_nat_alt u4096 .
  then have "unat (4096 - sizeof_tsgl) = unat (4096 :: 'l word) - ?T"
    by (rule unat_sub)
  then have sub: "unat (4096 - sizeof_tsgl) = 4096 - ?T"
    unfolding u4096 .
  have d: "unat ((4096 - sizeof_tsgl) div sizeof_sg) = (4096 - ?T) div ?S"
    unfolding unat_div sub ..
  have ge1: "1 \<le> (4096 - ?T) div ?S"
    using assms(2,3) by (simp add: Suc_le_eq div_greater_zero_iff)
  then have "(1 :: 'l word) \<le> (4096 - sizeof_tsgl) div sizeof_sg"
    unfolding word_le_nat_alt d by simp
  then have "unat ((4096 - sizeof_tsgl) div sizeof_sg - 1) =
             unat ((4096 - sizeof_tsgl) div sizeof_sg) - unat (1 :: 'l word)"
    by (rule unat_sub)
  then have m: "unat (MAX_SGL_ENTS sizeof_tsgl sizeof_sg) = (4096 - ?T) div ?S - 1"
    unfolding MAX_SGL_ENTS_def d by simp
  have fits: "?T + (unat (MAX_SGL_ENTS sizeof_tsgl sizeof_sg) + 1) * ?S \<le> 4096"
  proof -
    have eq: "unat (MAX_SGL_ENTS sizeof_tsgl sizeof_sg) + 1 = (4096 - ?T) div ?S"
      using ge1 by (simp add: m)
    have "(4096 - ?T) div ?S * ?S \<le> 4096 - ?T" by (rule div_times_less_eq_dividend)
    then have "?T + (4096 - ?T) div ?S * ?S \<le> 4096" using Tle by linarith
    then show ?thesis unfolding eq .
  qed
  have largest: "n \<le> unat (MAX_SGL_ENTS sizeof_tsgl sizeof_sg)"
    if "?T + (n + 1) * ?S \<le> 4096" for n
  proof -
    have "(n + 1) * ?S \<le> 4096 - ?T" using that by simp
    then have "n + 1 \<le> (4096 - ?T) div ?S"
      using assms(2) by (simp add: less_eq_div_iff_mult_less_eq)
    then show ?thesis by (simp add: m)
  qed
  from fits largest show ?thesis by blast
qed


theorem MAX_SGL_ENTS_fits_page_witness:
  "13 \<le> LENGTH(64) \<and> 0 < unat (32 :: 64 word) \<and> unat (24 :: 64 word) + unat (32 :: 64 word) \<le> 4096 \<and>
   MAX_SGL_ENTS (24 :: 64 word) 32 = 126 \<and>
   unat (24 :: 64 word) + (unat (MAX_SGL_ENTS (24 :: 64 word) 32) + 1) * unat (32 :: 64 word) \<le> 4096 \<and>
   \<not> unat (24 :: 64 word) + (127 + 1) * unat (32 :: 64 word) \<le> 4096"
  using MAX_SGL_ENTS_fits_page [where sizeof_sg = "32 :: 64 word" and sizeof_tsgl = "24 :: 64 word"]
  by (simp add: MAX_SGL_ENTS_def)

section \<open>Properties of the operations modelled from the specification\<close>

subsection \<open>Buffer descriptor pool\<close>

lemma pin_ranges_length:
  "pin_ranges cap n iter = Inr sgs \<Longrightarrow> length sgs \<le> cap \<and> length sgs \<le> length iter"
proof (induction iter arbitrary: cap n sgs)
  case Nil
  then show ?case by simp
next
  case (Cons r rs)
  then show ?case
    by (fastforce split: if_splits sum.splits)
qed

lemma min_take_rest: "min n l + min (n - min n l) S = min n (l + S)" for n l S :: nat
  by arith

lemma pin_ranges_bytes:
  "pin_ranges cap n iter = Inr sgs \<Longrightarrow>
     sg_bytes sgs = min n (sum_list (map ur_len (take cap iter)))"
proof (induction iter arbitrary: cap n sgs)
  case Nil
  then show ?case by (simp add: sg_bytes_def)
next
  case (Cons r rs)
  show ?case
  proof (cases "cap = 0 \<or> n = 0")
    case True
    with Cons.prems show ?thesis by (auto simp: sg_bytes_def)
  next
    case False
    with Cons.prems obtain sgs' where
      rec: "pin_ranges (cap - 1) (n - min n (ur_len r)) rs = Inr sgs'" and
      sgs: "sgs = \<lparr>sg_page = ur_page r, sg_offset = ur_offset r, sg_length = min n (ur_len r)\<rparr> # sgs'"
      by (auto split: if_splits sum.splits)
    from False obtain c where c: "cap = Suc c" by (cases cap) auto
    from Cons.IH [OF rec] have
      "sg_bytes sgs' = min (n - min n (ur_len r)) (sum_list (map ur_len (take c rs)))"
      using c by simp
    then have "sg_bytes sgs = min n (ur_len r) + min (n - min n (ur_len r)) (sum_list (map ur_len (take c rs)))"
      using sgs by (simp add: sg_bytes_def)
    then show ?thesis using c by (simp only: min_take_rest) simp
  qed
qed

lemma pin_ranges_short:
  "pin_ranges cap n iter = Inr sgs \<Longrightarrow> sg_bytes sgs < n \<Longrightarrow> length sgs = min cap (length iter)"
proof (induction iter arbitrary: cap n sgs)
  case Nil
  then show ?case by simp
next
  case (Cons r rs)
  show ?case
  proof (cases "cap = 0 \<or> n = 0")
    case True
    with Cons.prems show ?thesis by (auto simp: sg_bytes_def)
  next
    case False
    with Cons.prems obtain sgs' where
      rec: "pin_ranges (cap - 1) (n - min n (ur_len r)) rs = Inr sgs'" and
      sgs: "sgs = \<lparr>sg_page = ur_page r, sg_offset = ur_offset r, sg_length = min n (ur_len r)\<rparr> # sgs'"
      by (auto split: if_splits sum.splits)
    from False obtain c where c: "cap = Suc c" by (cases cap) auto
    have "sg_bytes sgs' < n - min n (ur_len r)"
      using Cons.prems(2) sgs by (simp add: sg_bytes_def)
    from Cons.IH [OF rec this] show ?thesis using sgs c by simp
  qed
qed

lemma pin_ranges_pages:
  "pin_ranges cap n iter = Inr sgs \<Longrightarrow> map sg_page sgs = map ur_page (take (length sgs) iter)"
proof (induction iter arbitrary: cap n sgs)
  case Nil
  then show ?case by simp
next
  case (Cons r rs)
  then show ?case
    by (fastforce split: if_splits sum.splits)
qed

lemma pin_ranges_total:
  "\<forall>r \<in> set (take cap iter). ur_pinnable r \<Longrightarrow> \<exists>sgs. pin_ranges cap n iter = Inr sgs"
proof (induction iter arbitrary: cap n)
  case Nil
  then show ?case by simp
next
  case (Cons r rs)
  show ?case
  proof (cases "cap = 0 \<or> n = 0")
    case True
    then show ?thesis by auto
  next
    case False
    then obtain c where c: "cap = Suc c" by (cases cap) auto
    with Cons.prems have "ur_pinnable r" "\<forall>r \<in> set (take c rs). ur_pinnable r" by auto
    from Cons.IH [OF this(2), of "n - min n (ur_len r)"] \<open>ur_pinnable r\<close> c False
    show ?thesis by auto
  qed
qed

lemma make_sg_facts:
  assumes "af_alg_make_sg iter nbytes = Inr (n, s)"
  shows "n = sg_bytes (sg s)" "npages s \<le> ALG_MAX_PAGES" "n \<le> nbytes"
proof -
  from assms obtain sgs where p: "pin_ranges ALG_MAX_PAGES nbytes iter = Inr sgs"
    and n: "n = sg_bytes sgs"
    and s: "s = \<lparr>sg = sgs, pages = map sg_page sgs, npages = length sgs\<rparr>"
    by (auto simp: af_alg_make_sg_def split: sum.splits)
  show "n = sg_bytes (sg s)" using n s by simp
  show "npages s \<le> ALG_MAX_PAGES" using pin_ranges_length [OF p] s by simp
  show "n \<le> nbytes" using pin_ranges_bytes [OF p] n by simp
qed

lemmas eval_pool = user_pages_def af_alg_make_sg_def ALG_MAX_PAGES_def sg_bytes_def upt_rec



subsection \<open>Send side: writes and detaching\<close>

lemma sint_quota_lt: "sint (q :: c_int) < 2 ^ 31"
  using sint_lt [of q] by simp

lemma uint_add_of_nat:
  fixes u :: "'l::len word"
  assumes "32 \<le> LENGTH('l)" "uint u + int n < 2 ^ 31"
  shows "uint (u + of_nat n) = uint u + int n"
proof -
  have "(2::int) ^ 31 \<le> 2 ^ LENGTH('l)" using assms(1) by (intro power_increasing) auto
  with assms(2) have lt: "uint u + int n < 2 ^ LENGTH('l)" by linarith
  have "0 \<le> uint u + int n" by simp
  with lt have "take_bit LENGTH('l) (uint u + int n) = uint u + int n"
    by (simp add: take_bit_int_eq_self)
  moreover have "u + of_nat n = word_of_int (uint u + int n)" by simp
  ultimately show ?thesis by (simp only: uint_word_of_int_eq)
qed

lemma used_mk: "uint (used (private_data (mk_alg_sock a b (0 :: 64 word) r))) = 0"
  by (simp add: mk_alg_sock_def)

text \<open>
  C1. A write that would push \<open>used\<close> beyond the send quota is rejected with
  \<open>WouldBlock\<close>: no byte is accepted and the socket, with its TX list, is as before, so
  nothing stays pinned. A write is also rejected while \<open>af_alg_writable\<close> is false,
  and \<open>af_alg_writable\<close> holds exactly when \<open>af_alg_sndbuf\<close> reports at least
  \<open>PAGE_SIZE\<close> bytes of headroom. Every failing write leaves the socket unchanged, and
  an accepted write of \<open>n\<close> bytes raises \<open>used\<close> by \<open>n\<close> and keeps it within the
  quota.
\<close>

theorem af_alg_sendmsg_backpressure:
  fixes ask :: "'l::len alg_sock"
  assumes "32 \<le> LENGTH('l)" and "page_shift \<le> 30"
  shows "(sint (snd_quota page_shift ask) < uint (used (private_data ask)) + int nbytes \<longrightarrow>
            af_alg_sendmsg page_shift entry_budget ask msg nbytes more_flag = (Inl WouldBlock, ask)) \<and>
         (\<not> af_alg_writable page_shift ask \<longrightarrow>
            af_alg_sendmsg page_shift entry_budget ask msg nbytes more_flag = (Inl WouldBlock, ask)) \<and>
         (af_alg_writable page_shift ask \<longleftrightarrow> 2 ^ page_shift \<le> sint (af_alg_sndbuf page_shift ask)) \<and>
         (\<forall>e ask'. af_alg_sendmsg page_shift entry_budget ask msg nbytes more_flag = (Inl e, ask') \<longrightarrow>
            ask' = ask) \<and>
         (\<forall>n ask'. af_alg_sendmsg page_shift entry_budget ask msg nbytes more_flag = (Inr n, ask') \<longrightarrow>
            n \<le> nbytes \<and>
            uint (used (private_data ask')) = uint (used (private_data ask)) + int n \<and>
            uint (used (private_data ask')) \<le> sint (snd_quota page_shift ask'))"
proof -
  let ?send = "af_alg_sendmsg page_shift entry_budget ask msg nbytes more_flag"
  have 1: "?send = (Inl WouldBlock, ask)"
    if "sint (snd_quota page_shift ask) < uint (used (private_data ask)) + int nbytes"
    using that by (simp add: af_alg_sendmsg_def Let_def)
  have 2: "?send = (Inl WouldBlock, ask)" if "\<not> af_alg_writable page_shift ask"
    using that by (simp add: af_alg_sendmsg_def Let_def)
  have 3: "af_alg_writable page_shift ask \<longleftrightarrow> 2 ^ page_shift \<le> sint (af_alg_sndbuf page_shift ask)"
    by (rule af_alg_writable_iff [OF assms])
  have 4: "ask' = ask" if "?send = (Inl e, ask')" for e ask'
    using that
    by (auto simp: af_alg_sendmsg_def Let_def split: if_splits sum.splits prod.splits)
  have 5: "n \<le> nbytes \<and>
        uint (used (private_data ask')) = uint (used (private_data ask)) + int n \<and>
        uint (used (private_data ask')) \<le> sint (snd_quota page_shift ask')"
    if a: "?send = (Inr n, ask')" for n ask'
  proof -
    from a obtain s where
      fit: "uint (used (private_data ask)) + int nbytes \<le> sint (snd_quota page_shift ask)"
      and m: "af_alg_make_sg msg nbytes = Inr (n, s)"
      and u: "used (private_data ask') = used (private_data ask) + of_nat n"
      and sk: "sk ask' = sk ask"
      by (auto simp: af_alg_sendmsg_def Let_def split: if_splits sum.splits prod.splits)
    have n: "n \<le> nbytes" by (rule make_sg_facts(3) [OF m])
    then have le: "uint (used (private_data ask)) + int n \<le> sint (snd_quota page_shift ask)"
      using fit by linarith
    then have "uint (used (private_data ask)) + int n < 2 ^ 31"
      using sint_quota_lt [of "snd_quota page_shift ask"] by linarith
    from uint_add_of_nat [OF assms(1) this]
    have eq: "uint (used (private_data ask')) = uint (used (private_data ask)) + int n"
      by (simp only: u)
    have q: "snd_quota page_shift ask' = snd_quota page_shift ask"
      using sk by (simp add: snd_quota_def)
    show ?thesis using n eq le q by simp
  qed
  from 1 2 3 4 5 show ?thesis by blast
qed

theorem af_alg_sendmsg_backpressure_witness:
  "32 \<le> LENGTH(64) \<and> (12::nat) \<le> 30 \<and>
   sint (snd_quota 12 (mk_alg_sock 8192 8192 (4000 :: 64 word) 0))
     < uint (used (private_data (mk_alg_sock 8192 8192 (4000 :: 64 word) 0))) + int 5000 \<and>
   af_alg_sendmsg 12 126 (mk_alg_sock 8192 8192 (4000 :: 64 word) 0) (user_pages 3 4096) 5000 True =
     (Inl WouldBlock, mk_alg_sock 8192 8192 (4000 :: 64 word) 0) \<and>
   \<not> af_alg_writable 12 (mk_alg_sock 8192 8192 (8000 :: 64 word) 0) \<and>
   af_alg_sendmsg 12 126 (mk_alg_sock 8192 8192 (8000 :: 64 word) 0) (user_pages 3 4096) 100 True =
     (Inl WouldBlock, mk_alg_sock 8192 8192 (8000 :: 64 word) 0) \<and>
   af_alg_writable 12 (mk_alg_sock 8192 8192 (0 :: 64 word) 0) \<and>
   fst (af_alg_sendmsg 12 126 (mk_alg_sock 8192 8192 (0 :: 64 word) 0) (user_pages 3 4096) 5000 True) = Inr 5000 \<and>
   uint (used (private_data (snd (af_alg_sendmsg 12 126 (mk_alg_sock 8192 8192 (0 :: 64 word) 0) (user_pages 3 4096) 5000 True)))) = 5000"
proof -
  have a: "32 \<le> LENGTH(64)" "(12::nat) \<le> 30" by simp_all
  have q: "sint (snd_quota 12 (mk_alg_sock 8192 8192 (4000 :: 64 word) 0))
     < uint (used (private_data (mk_alg_sock 8192 8192 (4000 :: 64 word) 0))) + int 5000"
    by (simp add: eval_defs)
  have w: "\<not> af_alg_writable 12 (mk_alg_sock 8192 8192 (8000 :: 64 word) 0)"
    "af_alg_writable 12 (mk_alg_sock 8192 8192 (0 :: 64 word) 0)"
    by (simp_all add: eval_defs)
  have f: "fst (af_alg_sendmsg 12 126 (mk_alg_sock 8192 8192 (0 :: 64 word) 0) (user_pages 3 4096) 5000 True) = Inr 5000"
    by (simp add: af_alg_sendmsg_def Let_def eval_defs eval_pool)
  note c = af_alg_sendmsg_backpressure [OF a, where nbytes = 5000 and msg = "user_pages 3 4096" and entry_budget = 126 and more_flag = True]
  from c [of "mk_alg_sock 8192 8192 (4000 :: 64 word) 0"] q
  have 1: "af_alg_sendmsg 12 126 (mk_alg_sock 8192 8192 (4000 :: 64 word) 0) (user_pages 3 4096) 5000 True =
     (Inl WouldBlock, mk_alg_sock 8192 8192 (4000 :: 64 word) 0)" by blast
  from af_alg_sendmsg_backpressure [OF a, of "mk_alg_sock 8192 8192 (8000 :: 64 word) 0" 100 126 "user_pages 3 4096" True] w(1)
  have 2: "af_alg_sendmsg 12 126 (mk_alg_sock 8192 8192 (8000 :: 64 word) 0) (user_pages 3 4096) 100 True =
     (Inl WouldBlock, mk_alg_sock 8192 8192 (8000 :: 64 word) 0)" by blast
  obtain ask' where r: "af_alg_sendmsg 12 126 (mk_alg_sock 8192 8192 (0 :: 64 word) 0) (user_pages 3 4096) 5000 True = (Inr 5000, ask')"
    using f by (cases "af_alg_sendmsg 12 126 (mk_alg_sock 8192 8192 (0 :: 64 word) 0) (user_pages 3 4096) 5000 True") auto
  with c [of "mk_alg_sock 8192 8192 (0 :: 64 word) 0"]
  have "uint (used (private_data ask')) =
        uint (used (private_data (mk_alg_sock 8192 8192 (0 :: 64 word) 0))) + int 5000"
    by blast
  then have 3: "uint (used (private_data (snd (af_alg_sendmsg 12 126 (mk_alg_sock 8192 8192 (0 :: 64 word) 0) (user_pages 3 4096) 5000 True)))) = 5000"
    by (simp add: r used_mk)
  from a q w f 1 2 3 show ?thesis by blast
qed

lemma pull_sg_bytes:
  "pull_sg n es = (d, r, k) \<Longrightarrow>
     sg_bytes d = n - k \<and> k \<le> n \<and> sg_bytes d + sg_bytes r = sg_bytes es \<and>
     n - k = min n (sg_bytes es) \<and> (r \<noteq> [] \<longrightarrow> k = 0)"
proof (induction es arbitrary: n d r k)
  case Nil
  then show ?case by (simp add: sg_bytes_def)
next
  case (Cons e es)
  show ?case
  proof (cases "n = 0")
    case True
    with Cons.prems show ?thesis by (auto simp: sg_bytes_def)
  next
    case n: False
    show ?thesis
    proof (cases "sg_length e \<le> n")
      case True
      with n Cons.prems obtain d' where
        rec: "pull_sg (n - sg_length e) es = (d', r, k)" and d: "d = e # d'"
        by (auto split: prod.splits)
      from Cons.IH [OF rec] True d show ?thesis
        by (auto simp: sg_bytes_def)
    next
      case False
      with n Cons.prems show ?thesis by (auto simp: sg_bytes_def)
    qed
  qed
qed

lemma pull_chunks_bytes:
  "pull_chunks n cs = (d, cs', k) \<Longrightarrow>
     sg_bytes d = n - k \<and> k \<le> n \<and> sg_bytes d + tsgl_bytes cs' = tsgl_bytes cs \<and>
     n - k = min n (tsgl_bytes cs)"
proof (induction cs arbitrary: n d cs' k)
  case Nil
  then show ?case by (simp add: sg_bytes_def tsgl_bytes_def)
next
  case (Cons c cs)
  show ?case
  proof (cases "n = 0")
    case True
    with Cons.prems show ?thesis by (auto simp: sg_bytes_def tsgl_bytes_def)
  next
    case n: False
    obtain d1 r1 k1 where p: "pull_sg n (tsg c) = (d1, r1, k1)" by (cases "pull_sg n (tsg c)") auto
    note b = pull_sg_bytes [OF p]
    show ?thesis
    proof (cases "r1 = []")
      case True
      with n p Cons.prems obtain d2 where
        rec: "pull_chunks k1 cs = (d2, cs', k)" and d: "d = d1 @ d2"
        by (auto split: prod.splits)
      from Cons.IH [OF rec] b True d show ?thesis
        by (auto simp: sg_bytes_def tsgl_bytes_def)
    next
      case False
      with n p Cons.prems have "d = d1" "cs' = \<lparr>cur = length r1, tsg = r1\<rparr> # cs" "k = k1"
        by auto
      with b False show ?thesis by (auto simp: tsgl_bytes_def)
    qed
  qed
qed

lemma unat_sub_of_nat:
  fixes u :: "'l::len word"
  assumes "d \<le> unat u"
  shows "unat (u - of_nat d) = unat u - d"
proof -
  have ud: "unat (of_nat d :: 'l word) = d" using assms by (rule le_unat_uoi)
  then have "(of_nat d :: 'l word) \<le> u" using assms by (simp add: word_le_nat_alt)
  then show ?thesis using ud by (simp add: unat_sub)
qed

lemma used_free_rsgls [simp]: "used (free_rsgls ctx rs) = used ctx"
  by (induction rs arbitrary: ctx) auto

text \<open>
  C4. Detaching \<open>n\<close> bytes with \<open>af_alg_pull_tsgl\<close> hands the request the leading
  entries of the TX list, \<open>n\<close> bytes of them (all of the list if it holds less), and
  lowers \<open>used\<close> by exactly the detached amount in the same step; where \<open>used\<close>
  counted the bytes of the TX list before, it does so after. Releasing the request's
  buffers at completion leaves \<open>used\<close> alone.
\<close>

theorem af_alg_pull_tsgl_charges_at_detach:
  fixes ask :: "'l::len alg_sock"
  assumes "af_alg_pull_tsgl ask n = (ask', dst)"
  shows "sg_bytes dst = min n (tsgl_bytes (tsgl_list (private_data ask))) \<and>
         used (private_data ask') = used (private_data ask) - of_nat (sg_bytes dst) \<and>
         tsgl_bytes (tsgl_list (private_data ask')) =
           tsgl_bytes (tsgl_list (private_data ask)) - sg_bytes dst \<and>
         (unat (used (private_data ask)) = tsgl_bytes (tsgl_list (private_data ask)) \<longrightarrow>
            unat (used (private_data ask')) = unat (used (private_data ask)) - sg_bytes dst \<and>
            unat (used (private_data ask')) = tsgl_bytes (tsgl_list (private_data ask'))) \<and>
         (\<forall>areq. used (private_data (fst (af_alg_free_areq_sgls ask' areq))) =
                 used (private_data ask'))"
proof -
  obtain cs k where p: "pull_chunks n (tsgl_list (private_data ask)) = (dst, cs, k)"
    and a': "ask' = ask\<lparr>private_data := (private_data ask)\<lparr>tsgl_list := cs,
                           used := used (private_data ask) - of_nat (n - k)\<rparr>\<rparr>"
    using assms by (auto simp: af_alg_pull_tsgl_def Let_def split: prod.splits)
  note b = pull_chunks_bytes [OF p]
  have 1: "sg_bytes dst = min n (tsgl_bytes (tsgl_list (private_data ask)))" using b by simp
  have 2: "used (private_data ask') = used (private_data ask) - of_nat (sg_bytes dst)"
    using a' b by simp
  have "tsgl_list (private_data ask') = cs" using a' by simp
  moreover have "tsgl_bytes cs = tsgl_bytes (tsgl_list (private_data ask)) - sg_bytes dst"
    using b by linarith
  ultimately have 3: "tsgl_bytes (tsgl_list (private_data ask')) =
           tsgl_bytes (tsgl_list (private_data ask)) - sg_bytes dst"
    by simp
  have 4: "unat (used (private_data ask')) = unat (used (private_data ask)) - sg_bytes dst \<and>
           unat (used (private_data ask')) = tsgl_bytes (tsgl_list (private_data ask'))"
    if inv: "unat (used (private_data ask)) = tsgl_bytes (tsgl_list (private_data ask))"
  proof -
    have "sg_bytes dst \<le> unat (used (private_data ask))" using 1 inv by simp
    from unat_sub_of_nat [OF this] show ?thesis using 2 3 inv by simp
  qed
  have 5: "used (private_data (fst (af_alg_free_areq_sgls ask' areq))) = used (private_data ask')"
    for areq by (simp add: af_alg_free_areq_sgls_def)
  from 1 2 3 4 5 show ?thesis by blast
qed

theorem af_alg_pull_tsgl_charges_at_detach_witness:
  "unat (used (private_data queued_sock)) = tsgl_bytes (tsgl_list (private_data queued_sock)) \<and>
   tsgl_bytes (tsgl_list (private_data queued_sock)) = 5000 \<and>
   snd (af_alg_pull_tsgl queued_sock 4100) =
     [\<lparr>sg_page = 0, sg_offset = 0, sg_length = 4096\<rparr>, \<lparr>sg_page = 1, sg_offset = 0, sg_length = 4\<rparr>] \<and>
   sg_bytes (snd (af_alg_pull_tsgl queued_sock 4100)) = 4100 \<and>
   used (private_data (fst (af_alg_pull_tsgl queued_sock 4100))) = 900 \<and>
   tsgl_bytes (tsgl_list (private_data (fst (af_alg_pull_tsgl queued_sock 4100)))) = 900"
proof -
  have b: "tsgl_bytes (tsgl_list (private_data queued_sock)) = 5000"
    "unat (used (private_data queued_sock)) = 5000"
    "used (private_data queued_sock) = 5000"
    by (simp_all add: queued_sock_def tsgl_bytes_def sg_bytes_def)
  have d: "snd (af_alg_pull_tsgl queued_sock 4100) =
     [\<lparr>sg_page = 0, sg_offset = 0, sg_length = 4096\<rparr>, \<lparr>sg_page = 1, sg_offset = 0, sg_length = 4\<rparr>]"
    by (simp add: af_alg_pull_tsgl_def queued_sock_def)
  have p: "af_alg_pull_tsgl queued_sock 4100 =
           (fst (af_alg_pull_tsgl queued_sock 4100), snd (af_alg_pull_tsgl queued_sock 4100))"
    by simp
  from af_alg_pull_tsgl_charges_at_detach [OF p] b d show ?thesis by (simp add: sg_bytes_def)
qed

subsection \<open>Receive side: reservation and drain\<close>

lemma charge_rcvused_add:
  "charge_rcvused (charge_rcvused ask a) b = charge_rcvused ask (a + b)"
  by (simp add: charge_rcvused_def add.assoc)

lemma charge_rcvused_0: "charge_rcvused ask 0 = ask"
  by (simp add: charge_rcvused_def)

lemma get_rsgl_loop_charges:
  "get_rsgl_loop ps ask iter maxsize = Inr (ask', rs) \<Longrightarrow>
     ask' = charge_rcvused ask (rsgl_bytes rs) \<and> rsgl_bytes rs \<le> maxsize \<and>
     (\<forall>r \<in> set rs. sg_num_bytes r = sg_bytes (sg (sgl r)) \<and>
                    0 < npages (sgl r) \<and> npages (sgl r) \<le> ALG_MAX_PAGES)"
proof (induction ps ask iter maxsize arbitrary: ask' rs rule: get_rsgl_loop.induct)
  case (1 ps ask iter maxsize)
  show ?case
  proof (cases "maxsize = 0 \<or> iter = [] \<or> \<not> af_alg_readable ps ask")
    case True
    with "1.prems" show ?thesis
      by (auto simp: get_rsgl_loop.simps [of ps ask iter maxsize] rsgl_bytes_def charge_rcvused_0)
  next
    case go: False
    with "1.prems" obtain n s where m: "af_alg_make_sg iter maxsize = Inr (n, s)"
      by (auto simp: get_rsgl_loop.simps [of ps ask iter maxsize] split: sum.splits)
    note f = make_sg_facts [OF m]
    show ?thesis
    proof (cases "npages s = 0")
      case True
      with go m "1.prems" show ?thesis
        by (auto simp: get_rsgl_loop.simps [of ps ask iter maxsize] rsgl_bytes_def charge_rcvused_0)
    next
      case False
      with go m "1.prems" obtain rs' where
        rec: "get_rsgl_loop ps (charge_rcvused ask n) (drop (npages s) iter) (maxsize - n) = Inr (ask', rs')"
        and rs: "rs = \<lparr>sgl = s, sg_num_bytes = n\<rparr> # rs'"
        by (auto simp: get_rsgl_loop.simps [of ps ask iter maxsize] split: sum.splits)
      from "1.IH" [OF go m refl False rec] f False rs show ?thesis
        by (auto simp: charge_rcvused_add rsgl_bytes_def)
    qed
  qed
qed

lemma free_rsgls_rcvused:
  "rcvused (free_rsgls ctx rs) = rcvused ctx - of_nat (rsgl_bytes rs)"
  by (induction rs arbitrary: ctx) (auto simp: rsgl_bytes_def)

lemma free_rsgls_charge:
  "free_rsgls (private_data (charge_rcvused ask (rsgl_bytes rs))) rs = private_data ask"
proof -
  have "free_rsgls ctx rs = ctx\<lparr>rcvused := rcvused ctx - of_nat (rsgl_bytes rs)\<rparr>" for ctx :: "'a af_alg_ctx"
    by (induction rs arbitrary: ctx) (auto simp: rsgl_bytes_def diff_diff_eq)
  then show ?thesis by (simp add: charge_rcvused_def)
qed

lemma bytes_filled_sum: "sum_list (bytes_filled n rs) = min n (rsgl_bytes rs)"
proof (induction rs arbitrary: n)
  case Nil
  then show ?case by (simp add: rsgl_bytes_def)
next
  case (Cons r rs)
  have "sum_list (bytes_filled n (r # rs)) =
        min n (sg_num_bytes r) + min (n - min n (sg_num_bytes r)) (rsgl_bytes rs)"
    by (simp add: Cons.IH)
  then show ?case by (simp only: min_take_rest) (simp add: rsgl_bytes_def)
qed

text \<open>
  C5. \<open>af_alg_get_rsgl\<close> charges \<open>rcvused\<close> when it reserves: it raises
  \<open>rcvused\<close> by the bytes it pinned and changes nothing else of the socket, and each
  new RX chunk records in \<open>sg_num_bytes\<close> the bytes of its descriptor set. Draining a
  request lowers \<open>rcvused\<close> by the \<open>sg_num_bytes\<close> of all its chunks, whatever
  \<open>outlen\<close> the engine produced; the caller gets the filled bytes, at most the
  reserved ones.
\<close>

theorem rcvused_charged_at_reservation:
  fixes ask :: "'l::len alg_sock"
  shows "(\<forall>ask' areq' n. af_alg_get_rsgl page_shift ask msg areq maxsize = Inr (ask', areq', n) \<longrightarrow>
            ask' = charge_rcvused ask n \<and>
            rcvused (private_data ask') = rcvused (private_data ask) + of_nat n \<and>
            n \<le> maxsize \<and>
            (\<exists>rs. rsgl_list areq' = rsgl_list areq @ rs \<and> n = rsgl_bytes rs \<and>
                  (\<forall>r \<in> set rs. sg_num_bytes r = sg_bytes (sg (sgl r)) \<and>
                       0 < npages (sgl r) \<and> npages (sgl r) \<le> ALG_MAX_PAGES))) \<and>
         (\<forall>ask' areq' m. af_alg_free_areq_sgls ask areq = (ask', areq', m) \<longrightarrow>
            rcvused (private_data ask') =
              rcvused (private_data ask) - of_nat (rsgl_bytes (rsgl_list areq)) \<and>
            m = min (outlen areq) (rsgl_bytes (rsgl_list areq)) \<and>
            rsgl_list areq' = [])"
proof (intro conjI allI impI)
  fix ask' :: "'l alg_sock" and areq' n
  assume "af_alg_get_rsgl page_shift ask msg areq maxsize = Inr (ask', areq', n)"
  then obtain rs where l: "get_rsgl_loop page_shift ask msg maxsize = Inr (ask', rs)"
    and a: "areq' = areq\<lparr>rsgl_list := rsgl_list areq @ rs\<rparr>" and n: "n = rsgl_bytes rs"
    by (auto simp: af_alg_get_rsgl_def split: sum.splits)
  note c = get_rsgl_loop_charges [OF l]
  show "ask' = charge_rcvused ask n" using c n by simp
  then show "rcvused (private_data ask') = rcvused (private_data ask) + of_nat n"
    by (simp add: charge_rcvused_def)
  show "n \<le> maxsize" using c n by simp
  show "\<exists>rs. rsgl_list areq' = rsgl_list areq @ rs \<and> n = rsgl_bytes rs \<and>
          (\<forall>r \<in> set rs. sg_num_bytes r = sg_bytes (sg (sgl r)) \<and>
               0 < npages (sgl r) \<and> npages (sgl r) \<le> ALG_MAX_PAGES)"
    using c a n by (intro exI [of _ rs]) simp
next
  fix ask' :: "'l alg_sock" and areq' m
  assume f: "af_alg_free_areq_sgls ask areq = (ask', areq', m)"
  show "rcvused (private_data ask') =
          rcvused (private_data ask) - of_nat (rsgl_bytes (rsgl_list areq))"
    using f by (auto simp: af_alg_free_areq_sgls_def free_rsgls_rcvused)
  show "m = min (outlen areq) (rsgl_bytes (rsgl_list areq))"
    using f by (auto simp: af_alg_free_areq_sgls_def bytes_filled_sum)
  show "rsgl_list areq' = []"
    using f by (auto simp: af_alg_free_areq_sgls_def)
qed

lemma get_rsgl_loop_Nil: "get_rsgl_loop ps ask [] m = Inr (ask, [])"
  by (simp add: get_rsgl_loop.simps)

lemma get_rsgl_loop_example: "get_rsgl_loop 12 (mk_alg_sock 8192 8192 (0 :: 64 word) 0) (user_pages 3 100) 250 =
     Inr (mk_alg_sock 8192 8192 0 250, rsgl_list areq_reserved)"
proof -
  have r: "af_alg_readable 12 (mk_alg_sock 8192 8192 (0 :: 64 word) 0)"
    by (simp add: eval_defs)
  have m: "af_alg_make_sg (user_pages 3 100) 250 =
      Inr (250, \<lparr>sg = [\<lparr>sg_page = 0, sg_offset = 0, sg_length = 100\<rparr>,
                                   \<lparr>sg_page = 1, sg_offset = 0, sg_length = 100\<rparr>,
                                   \<lparr>sg_page = 2, sg_offset = 0, sg_length = 50\<rparr>],
                             pages = [0, 1, 2], npages = 3\<rparr>)"
    by (simp add: eval_pool)
  have c: "charge_rcvused (mk_alg_sock 8192 8192 (0 :: 64 word) 0) 250 = mk_alg_sock 8192 8192 0 250"
    by (simp add: charge_rcvused_def mk_alg_sock_def)
  have d: "drop 3 (user_pages 3 100) = []" by (simp add: user_pages_def)
  have u: "user_pages 3 100 \<noteq> []" by (simp add: user_pages_def upt_rec)
  show ?thesis
    by (subst get_rsgl_loop.simps) (simp add: r m c d u get_rsgl_loop_Nil areq_reserved_def)
qed

theorem rcvused_charged_at_reservation_witness:
  "af_alg_get_rsgl 12 (mk_alg_sock 8192 8192 (0 :: 64 word) 0) (user_pages 3 100) areq_init 250 =
     Inr (mk_alg_sock 8192 8192 0 250, areq_reserved\<lparr>outlen := 0\<rparr>, 250) \<and>
   rsgl_bytes (rsgl_list areq_reserved) = 250 \<and> outlen areq_reserved = 10 \<and>
   af_alg_free_areq_sgls (mk_alg_sock 8192 8192 (0 :: 64 word) 250) areq_reserved =
     (mk_alg_sock 8192 8192 0 0, areq_init\<lparr>outlen := 10\<rparr>, 10)"
proof -
  have r: "rsgl_bytes (rsgl_list areq_reserved) = 250" "outlen areq_reserved = 10"
    by (simp_all add: areq_reserved_def rsgl_bytes_def)
  have g: "af_alg_get_rsgl 12 (mk_alg_sock 8192 8192 (0 :: 64 word) 0) (user_pages 3 100) areq_init 250 =
     Inr (mk_alg_sock 8192 8192 0 250, areq_reserved\<lparr>outlen := 0\<rparr>, 250)"
    by (simp add: af_alg_get_rsgl_def get_rsgl_loop_example r) (simp add: areq_init_def areq_reserved_def)
  have f: "af_alg_free_areq_sgls (mk_alg_sock 8192 8192 (0 :: 64 word) 250) areq_reserved =
     (mk_alg_sock 8192 8192 0 0, areq_init\<lparr>outlen := 10\<rparr>, 10)"
    by (simp add: af_alg_free_areq_sgls_def areq_reserved_def areq_init_def mk_alg_sock_def)
  note c1 = rcvused_charged_at_reservation [where page_shift = 12 and ask = "mk_alg_sock 8192 8192 (0 :: 64 word) 0"
        and msg = "user_pages 3 100" and areq = areq_init and maxsize = 250]
  note c2 = rcvused_charged_at_reservation [where ask = "mk_alg_sock 8192 8192 (0 :: 64 word) 250" and areq = areq_reserved]
  from c1 g have "rcvused (private_data (mk_alg_sock 8192 8192 (0 :: 64 word) 250)) =
                  rcvused (private_data (mk_alg_sock 8192 8192 (0 :: 64 word) 0)) + of_nat 250"
    by blast
  moreover from c2 f have
    "rcvused (private_data (mk_alg_sock 8192 8192 (0 :: 64 word) 0)) =
     rcvused (private_data (mk_alg_sock 8192 8192 (0 :: 64 word) 250)) - of_nat (rsgl_bytes (rsgl_list areq_reserved))"
    by blast
  ultimately show ?thesis using g f r by blast
qed

subsection \<open>Pinned memory is unpinned exactly once\<close>

lemma units_Nil [simp]: "units [] = []"
  by (simp add: units_def)

lemma units_Cons [simp]: "units (e # es) = sg_units e @ units es"
  by (simp add: units_def)

lemma units_append [simp]: "units (xs @ ys) = units xs @ units ys"
  by (simp add: units_def)

lemma unit_count_Nil [simp]: "unit_count [] u = 0"
  by (simp add: unit_count_def)

lemma unit_count_append [simp]: "unit_count (xs @ ys) u = unit_count xs u + unit_count ys u"
  by (simp add: unit_count_def)

lemma unit_count_concat:
  "unit_count (concat xss) u = sum_list (map (\<lambda>xs. unit_count xs u) xss)"
  by (induction xss) auto

text \<open>Splitting a range inside keeps its bytes, in order.\<close>

lemma sg_units_split:
  assumes "0 < n" "n < sg_length e"
  shows "sg_units (e\<lparr>sg_length := n\<rparr>) @
         sg_units (e\<lparr>sg_offset := sg_offset e + n, sg_length := sg_length e - n\<rparr>) = sg_units e"
proof -
  have u: "[0 ..< sg_length e] = [0 ..< n] @ [n ..< sg_length e]"
    using assms by (metis le_add_diff_inverse less_imp_le upt_add_eq_append zero_le)
  have "[n ..< sg_length e] = map (\<lambda>i. i + n) [0 ..< sg_length e - n]"
    using assms by (simp add: map_add_upt)
  then have m: "map (\<lambda>i. PinnedByte (sg_page e) (sg_offset e + i)) [n ..< sg_length e] =
                map (\<lambda>i. PinnedByte (sg_page e) (sg_offset e + n + i)) [0 ..< sg_length e - n]"
    by (simp add: o_def add.commute add.left_commute)
  from assms show ?thesis
    unfolding sg_units_def by (simp add: m [symmetric]) (simp add: u)
qed

text \<open>Detaching keeps every unit: it is in the detached entries or stays in the list.\<close>

lemma pull_sg_units:
  "pull_sg n es = (d, r, k) \<Longrightarrow> units d @ units r = units es"
proof (induction es arbitrary: n d r k)
  case Nil
  then show ?case by simp
next
  case (Cons e es)
  show ?case
  proof (cases "n = 0")
    case True
    with Cons.prems show ?thesis by auto
  next
    case n: False
    show ?thesis
    proof (cases "sg_length e \<le> n")
      case True
      with n Cons.prems obtain d' where
        rec: "pull_sg (n - sg_length e) es = (d', r, k)" and d: "d = e # d'"
        by (auto split: prod.splits)
      from Cons.IH [OF rec] d show ?thesis by simp
    next
      case False
      with n Cons.prems have d: "d = [e\<lparr>sg_length := n\<rparr>]"
        and r: "r = e\<lparr>sg_offset := sg_offset e + n, sg_length := sg_length e - n\<rparr> # es"
        by auto
      from n False have "0 < n" "n < sg_length e" by simp_all
      from sg_units_split [OF this] show ?thesis unfolding d r by simp
    qed
  qed
qed

lemma pull_chunks_units:
  "pull_chunks n cs = (d, cs', k) \<Longrightarrow> units d @ units (tsgl_ranges cs') = units (tsgl_ranges cs)"
proof (induction cs arbitrary: n d cs' k)
  case Nil
  then show ?case by (simp add: tsgl_ranges_def)
next
  case (Cons c cs)
  show ?case
  proof (cases "n = 0")
    case True
    with Cons.prems show ?thesis by auto
  next
    case n: False
    obtain d1 r1 k1 where p: "pull_sg n (tsg c) = (d1, r1, k1)" by (cases "pull_sg n (tsg c)") auto
    note b = pull_sg_units [OF p]
    show ?thesis
    proof (cases "r1 = []")
      case True
      with n p Cons.prems obtain d2 where
        rec: "pull_chunks k1 cs = (d2, cs', k)" and d: "d = d1 @ d2"
        by (auto split: prod.splits)
      from Cons.IH [OF rec] have "units d2 @ units (tsgl_ranges cs') = units (tsgl_ranges cs)" .
      with b True d show ?thesis by (simp add: tsgl_ranges_def)
    next
      case False
      with n p Cons.prems have "d = d1" "cs' = \<lparr>cur = length r1, tsg = r1\<rparr> # cs" by auto
      with b show ?thesis by (simp add: tsgl_ranges_def)
    qed
  qed
qed

lemma af_alg_pull_tsgl_units:
  assumes "af_alg_pull_tsgl ask n = (ask', dst)"
  shows "units dst @ units (tsgl_ranges (tsgl_list (private_data ask'))) =
         units (tsgl_ranges (tsgl_list (private_data ask)))"
proof -
  from assms obtain cs k where p: "pull_chunks n (tsgl_list (private_data ask)) = (dst, cs, k)"
    and a: "tsgl_list (private_data ask') = cs"
    by (auto simp: af_alg_pull_tsgl_def Let_def split: prod.splits)
  from pull_chunks_units [OF p] a show ?thesis by simp
qed

text \<open>An accepted write appends the ranges its \<open>af_alg_make_sg\<close> call pinned.\<close>

lemma make_sg_ranges:
  "af_alg_make_sg iter nbytes = Inr (n, s) \<Longrightarrow> sgl_ranges s = sg s"
  by (auto simp: af_alg_make_sg_def sgl_ranges_def split: sum.splits)

lemma tsgl_append_ranges:
  "tsgl_ranges (tsgl_append entry_budget mrg sgs cs) = tsgl_ranges cs @ sgs"
proof (cases "mrg \<and> cs \<noteq> [] \<and> cur (last cs) + length sgs \<le> entry_budget")
  case True
  then have "cs = butlast cs @ [last cs]" by simp
  then have "tsgl_ranges cs = tsgl_ranges (butlast cs) @ tsg (last cs)"
    unfolding tsgl_ranges_def by (metis (no_types, lifting) append_Nil2 concat.simps concat_append list.simps(8,9) map_append)
  with True show ?thesis by (simp add: tsgl_append_def tsgl_ranges_def)
next
  case False
  then show ?thesis by (auto simp: tsgl_append_def tsgl_ranges_def)
qed

lemma af_alg_sendmsg_ranges:
  assumes "af_alg_sendmsg ps eb ask msg nbytes more_flag = (Inr n, ask')"
  shows "tsgl_ranges (tsgl_list (private_data ask')) =
         tsgl_ranges (tsgl_list (private_data ask)) @ made_ranges msg nbytes"
proof -
  from assms obtain s where m: "af_alg_make_sg msg nbytes = Inr (n, s)"
    and a: "tsgl_list (private_data ask') =
            tsgl_append eb (merge (private_data ask)) (sg s) (tsgl_list (private_data ask))"
    by (auto simp: af_alg_sendmsg_def Let_def split: if_splits sum.splits prod.splits)
  from m have "made_ranges msg nbytes = sg s"
    by (simp add: made_ranges_def make_sg_ranges [OF m])
  with a show ?thesis by (simp add: tsgl_append_ranges)
qed

text \<open>A successful reservation returns the chunks its rounds pinned, and leaves the TX list alone.\<close>

lemma get_rsgl_loop_reserved:
  "get_rsgl_loop ps ask iter maxsize = Inr (ask', rs) \<Longrightarrow> rsgl_reserved ps ask iter maxsize = rs"
proof (induction ps ask iter maxsize arbitrary: ask' rs rule: get_rsgl_loop.induct)
  case (1 ps ask iter maxsize)
  show ?case
  proof (cases "maxsize = 0 \<or> iter = [] \<or> \<not> af_alg_readable ps ask")
    case True
    then have "rsgl_reserved ps ask iter maxsize = []"
      by (simp add: rsgl_reserved.simps [of ps ask iter maxsize])
    moreover from True "1.prems" have "rs = []"
      by (auto simp: get_rsgl_loop.simps [of ps ask iter maxsize])
    ultimately show ?thesis by simp
  next
    case go: False
    with "1.prems" obtain n s where m: "af_alg_make_sg iter maxsize = Inr (n, s)"
      by (auto simp: get_rsgl_loop.simps [of ps ask iter maxsize] split: sum.splits)
    show ?thesis
    proof (cases "npages s = 0")
      case True
      with go m have "rsgl_reserved ps ask iter maxsize = []"
        by (simp add: rsgl_reserved.simps [of ps ask iter maxsize])
      moreover from True go m "1.prems" have "rs = []"
        by (auto simp: get_rsgl_loop.simps [of ps ask iter maxsize])
      ultimately show ?thesis by simp
    next
      case False
      with go m "1.prems" obtain rs' where
        rec: "get_rsgl_loop ps (charge_rcvused ask n) (drop (npages s) iter) (maxsize - n) = Inr (ask', rs')"
        and rs: "rs = \<lparr>sgl = s, sg_num_bytes = n\<rparr> # rs'"
        by (auto simp: get_rsgl_loop.simps [of ps ask iter maxsize] split: sum.splits)
      from "1.IH" [OF go m _ False rec] have "rsgl_reserved ps (charge_rcvused ask n) (drop (npages s) iter) (maxsize - n) = rs'"
        by simp
      with go m False rs show ?thesis
        by (simp add: rsgl_reserved.simps [of ps ask iter maxsize])
    qed
  qed
qed

lemma tsgl_list_charge_rcvused [simp]:
  "tsgl_list (private_data (charge_rcvused ask n)) = tsgl_list (private_data ask)"
  by (simp add: charge_rcvused_def)

lemma tsgl_list_free_rsgls [simp]: "tsgl_list (free_rsgls ctx rs) = tsgl_list ctx"
  by (induction rs arbitrary: ctx) auto

lemma af_alg_get_rsgl_reserved:
  assumes "af_alg_get_rsgl ps ask msg (af_alg_alloc_areq l) maxsize = Inr (ask1, areq, m)"
  shows "rsgl_list areq = rsgl_reserved ps ask msg maxsize" "tsgl areq = []"
        "tsgl_list (private_data ask1) = tsgl_list (private_data ask)"
proof -
  from assms obtain rs where g: "get_rsgl_loop ps ask msg maxsize = Inr (ask1, rs)"
    and a: "areq = (af_alg_alloc_areq l)\<lparr>rsgl_list := rsgl_list (af_alg_alloc_areq l) @ rs\<rparr>"
    by (auto simp: af_alg_get_rsgl_def split: sum.splits)
  from get_rsgl_loop_reserved [OF g] a show "rsgl_list areq = rsgl_reserved ps ask msg maxsize"
    by (simp add: af_alg_alloc_areq_def)
  from a show "tsgl areq = []" by (simp add: af_alg_alloc_areq_def)
  from get_rsgl_loop_charges [OF g] show "tsgl_list (private_data ask1) = tsgl_list (private_data ask)"
    by simp
qed

lemma areq_ranges_rsgl:
  "concat (map (\<lambda>r. af_alg_free_sg (sgl r)) rs) = rsgl_ranges rs"
  by (simp add: rsgl_ranges_def af_alg_free_sg_def)

text \<open>After \<open>af_alg_free_areq_sgls\<close> the request holds no range, and the TX list is as before.\<close>

lemma af_alg_free_areq_sgls_released:
  assumes "af_alg_free_areq_sgls ask areq = (ask', areq', m)"
  shows "areq_ranges areq' = []" "tsgl_list (private_data ask') = tsgl_list (private_data ask)"
  using assms by (auto simp: af_alg_free_areq_sgls_def areq_ranges_def)

text \<open>The invariant holds at the start and is kept by every step.\<close>

lemma inv_init: "lifecycle_inv (lifecycle_init sb rb)"
  by (simp add: lifecycle_inv_def lifecycle_init_def held_def mk_alg_sock_def tsgl_ranges_def)

lemma inv_Write:
  assumes "lifecycle_inv s"
  shows "lifecycle_inv (step ps eb s (Write msg nbytes more_flag))"
proof (cases "closed s")
  case True
  with assms show ?thesis by simp
next
  case op: False
  obtain res ask' where r: "af_alg_sendmsg ps eb (chan_sock s) msg nbytes more_flag = (res, ask')"
    by (cases "af_alg_sendmsg ps eb (chan_sock s) msg nbytes more_flag") auto
  show ?thesis
  proof (cases res)
    case (Inl e)
    with op r assms show ?thesis by simp
  next
    case (Inr n)
    with op r have st: "step ps eb s (Write msg nbytes more_flag) =
        s\<lparr>chan_sock := ask', pinned := pinned s @ made_ranges msg nbytes\<rparr>" by simp
    from r Inr have t: "tsgl_ranges (tsgl_list (private_data ask')) =
        tsgl_ranges (tsgl_list (private_data (chan_sock s))) @ made_ranges msg nbytes"
      by (simp add: af_alg_sendmsg_ranges)
    from assms op show ?thesis
      unfolding st lifecycle_inv_def held_def by (simp add: t)
  qed
qed

lemma inv_Read:
  assumes "lifecycle_inv s"
  shows "lifecycle_inv (step ps eb s (Read n msg maxsize))"
proof (cases "closed s")
  case True
  with assms show ?thesis by simp
next
  case op: False
  let ?rs = "rsgl_reserved ps (chan_sock s) msg maxsize"
  show ?thesis
  proof (cases "af_alg_get_rsgl ps (chan_sock s) msg (af_alg_alloc_areq 0) maxsize")
    case (Inl e)
    with op have st: "step ps eb s (Read n msg maxsize) =
        s\<lparr>pinned := pinned s @ rsgl_ranges ?rs, unpinned := unpinned s @ rsgl_ranges ?rs\<rparr>"
      by (simp add: areq_ranges_rsgl Let_def)
    from assms show ?thesis
      unfolding st lifecycle_inv_def held_def by simp
  next
    case (Inr x)
    then obtain ask1 areq m where
      g: "af_alg_get_rsgl ps (chan_sock s) msg (af_alg_alloc_areq 0) maxsize = Inr (ask1, areq, m)"
      by (cases x) auto
    obtain ask2 dst where p: "af_alg_pull_tsgl ask1 n = (ask2, dst)"
      by (cases "af_alg_pull_tsgl ask1 n") auto
    from op g p have st: "step ps eb s (Read n msg maxsize) =
        s\<lparr>chan_sock := ask2,
          inflight := inflight s @ [areq\<lparr>tsgl := dst, tsgl_entries := length dst\<rparr>],
          pinned := pinned s @ rsgl_ranges ?rs\<rparr>"
      by (simp add: Let_def)
    note f = af_alg_get_rsgl_reserved [OF g]
    have a: "areq_ranges (areq\<lparr>tsgl := dst, tsgl_entries := length dst\<rparr>) = dst @ rsgl_ranges ?rs"
      by (simp add: areq_ranges_def areq_ranges_rsgl f(1))
    from af_alg_pull_tsgl_units [OF p] f(3)
    have c: "units dst @ units (tsgl_ranges (tsgl_list (private_data ask2))) =
             units (tsgl_ranges (tsgl_list (private_data (chan_sock s))))" by simp
    have t: "unit_count (tsgl_ranges (tsgl_list (private_data (chan_sock s)))) u =
             unit_count dst u + unit_count (tsgl_ranges (tsgl_list (private_data ask2))) u" for u
      unfolding unit_count_def c [symmetric] by simp
    from assms op show ?thesis
      unfolding st lifecycle_inv_def held_def by (simp add: a t)
  qed
qed

lemma unit_count_remove_nth:
  assumes "i < length xs"
  shows "unit_count (concat (map f xs)) u =
         unit_count (f (xs ! i)) u + unit_count (concat (map f (take i xs @ drop (Suc i) xs))) u"
proof -
  from assms have "xs = take i xs @ xs ! i # drop (Suc i) xs" by (rule id_take_nth_drop)
  then have "concat (map f xs) = concat (map f (take i xs)) @ f (xs ! i) @ concat (map f (drop (Suc i) xs))"
    by (metis concat.simps(2) concat_append list.simps(9) map_append)
  then show ?thesis by simp
qed

lemma inv_Complete:
  assumes "lifecycle_inv s"
  shows "lifecycle_inv (step ps eb s (Complete i out))"
proof (cases "i < length (inflight s)")
  case False
  with assms show ?thesis by simp
next
  case True
  obtain ask' areq' m where
    r: "af_alg_free_areq_sgls (chan_sock s) ((inflight s ! i)\<lparr>outlen := out\<rparr>) = (ask', areq', m)"
    by (cases "af_alg_free_areq_sgls (chan_sock s) ((inflight s ! i)\<lparr>outlen := out\<rparr>)") auto
  with True have st: "step ps eb s (Complete i out) =
      s\<lparr>chan_sock := ask', inflight := take i (inflight s) @ drop (Suc i) (inflight s),
        unpinned := unpinned s @ areq_ranges (inflight s ! i)\<rparr>"
    by simp
  note f = af_alg_free_areq_sgls_released [OF r]
  note c = unit_count_remove_nth [OF True, of areq_ranges]
  from assms show ?thesis
    unfolding st lifecycle_inv_def held_def by (simp add: f(2) c)
qed

lemma inv_Close:
  assumes "lifecycle_inv s"
  shows "lifecycle_inv (step ps eb s Close)"
proof (cases "closed s")
  case True
  with assms show ?thesis by simp
next
  case False
  then have st: "step ps eb s Close =
      s\<lparr>chan_sock := (chan_sock s)\<lparr>private_data :=
           (private_data (chan_sock s))\<lparr>tsgl_list := [],
              used := used (private_data (chan_sock s)) -
                      of_nat (tsgl_bytes (tsgl_list (private_data (chan_sock s))))\<rparr>\<rparr>,
        unpinned := unpinned s @ tsgl_ranges (tsgl_list (private_data (chan_sock s))),
        closed := True\<rparr>"
    by (simp add: Let_def)
  from assms show ?thesis
    unfolding st lifecycle_inv_def held_def by (simp add: tsgl_ranges_def)
qed

lemma inv_step: "lifecycle_inv s \<Longrightarrow> lifecycle_inv (step ps eb s ev)"
  by (cases ev) (simp_all only: inv_Write inv_Read inv_Complete inv_Close)

lemma inv_foldl: "lifecycle_inv s \<Longrightarrow> lifecycle_inv (foldl (step ps eb) s evs)"
  by (induction evs arbitrary: s) (simp_all add: inv_step)

lemma inv_run: "lifecycle_inv (run ps eb sb rb evs)"
  unfolding run_def by (rule inv_foldl [OF inv_init])

text \<open>Completing the first request in flight, once for each request, leaves none.\<close>

lemma drain_requests:
  "length (inflight s) = n \<Longrightarrow>
     inflight (foldl (step ps eb) s (replicate n (Complete 0 out))) = [] \<and>
     closed (foldl (step ps eb) s (replicate n (Complete 0 out))) = closed s \<and>
     pinned (foldl (step ps eb) s (replicate n (Complete 0 out))) = pinned s"
proof (induction n arbitrary: s)
  case 0
  then show ?case by simp
next
  case (Suc n)
  let ?t = "step ps eb s (Complete 0 out)"
  from Suc.prems have "length (inflight ?t) = n" "closed ?t = closed s" "pinned ?t = pinned s"
    by (auto split: prod.splits)
  with Suc.IH [of ?t] show ?case by simp
qed

lemma run_append:
  "run ps eb sb rb (evs @ evs') = foldl (step ps eb) (run ps eb sb rb evs) evs'"
  by (simp add: run_def)

lemma quiescent_all_released:
  assumes "lifecycle_inv s" "closed s" "inflight s = []"
  shows "held s = []" "unit_count (unpinned s) u = unit_count (pinned s) u"
proof -
  from assms show h: "held s = []" by (simp add: lifecycle_inv_def held_def tsgl_ranges_def)
  from assms(1) have "unit_count (pinned s) u = unit_count (unpinned s) u + unit_count (held s) u"
    unfolding lifecycle_inv_def by blast
  with h show "unit_count (unpinned s) u = unit_count (pinned s) u" by simp
qed



subsection \<open>Type registry\<close>

lemma length_chan_run [simp]: "length (chan_run ch ops) = length ops"
  by (induction ch ops rule: chan_run.induct) auto

lemma key_ready_setkey: "key_ready (alg_setkey ch)"
  by (simp add: key_ready_def alg_setkey_def)

lemma chan_run_ready:
  "key_ready ch \<Longrightarrow> i < length ops \<Longrightarrow> chan_run ch ops ! i = Inr ()"
proof (induction ch ops arbitrary: i rule: chan_run.induct)
  case (1 ch)
  then show ?case by simp
next
  case (2 ch ops)
  then show ?case by (cases i) (auto simp: key_ready_setkey)
next
  case (3 ch ops)
  then show ?case by (cases i) (auto simp: key_ready_def alg_data_op_def)
qed

lemma chan_run_before_key:
  "\<not> key_ready ch \<Longrightarrow> i < length ops \<Longrightarrow> ops ! i = DataOp \<Longrightarrow> SetKey \<notin> set (take i ops) \<Longrightarrow>
     chan_run ch ops ! i = Inl KeyRequired"
proof (induction ch ops arbitrary: i rule: chan_run.induct)
  case (1 ch)
  then show ?case by simp
next
  case (2 ch ops)
  then show ?case by (cases i) auto
next
  case (3 ch ops)
  then show ?case by (cases i) (auto simp: key_ready_def alg_data_op_def)
qed

lemma chan_run_after_key:
  "i < j \<Longrightarrow> j < length ops \<Longrightarrow> ops ! i = SetKey \<Longrightarrow> chan_run ch ops ! j = Inr ()"
proof (induction ch ops arbitrary: i j rule: chan_run.induct)
  case (1 ch)
  then show ?case by simp
next
  case (2 ch ops)
  show ?case
  proof (cases j)
    case 0
    with 2 show ?thesis by simp
  next
    case (Suc j')
    show ?thesis
    proof (cases i)
      case 0
      with Suc 2 show ?thesis by (simp add: chan_run_ready key_ready_setkey)
    next
      case (Suc i')
      with \<open>j = Suc j'\<close> 2 show ?thesis by simp
    qed
  qed
next
  case (3 ch ops)
  show ?case
  proof (cases j)
    case 0
    with 3 show ?thesis by simp
  next
    case (Suc j')
    with 3 show ?thesis by (cases i) auto
  qed
qed

text \<open>
  C7. On a channel whose key is mandatory and not yet set, a data operation fails with
  \<open>KeyRequired\<close>, and so does every data operation of a sequence that comes before
  the first \<open>set_key\<close>, unless the registry entry of the category allows key-less
  acceptance (it provides \<open>accept_nokey\<close> and \<open>ops_nokey\<close>), in which case the
  operations proceed; they also proceed when no key is mandatory, and after \<open>set_key\<close>.
\<close>

theorem key_required_unless_nokey:
  "(key_mandatory ch \<and> \<not> key_set ch \<and> \<not> allows_nokey (ch_type ch) \<longrightarrow>
      alg_data_op ch f = Inl KeyRequired \<and>
      (\<forall>i < length ops. ops ! i = DataOp \<and> SetKey \<notin> set (take i ops) \<longrightarrow>
         chan_run ch ops ! i = Inl KeyRequired)) \<and>
   (key_mandatory ch \<and> \<not> key_set ch \<and> allows_nokey (ch_type ch) \<longrightarrow>
      alg_data_op ch f = Inr (f ch) \<and> (\<forall>i < length ops. chan_run ch ops ! i = Inr ())) \<and>
   (\<not> key_mandatory ch \<or> key_set ch \<longrightarrow>
      alg_data_op ch f = Inr (f ch) \<and> (\<forall>i < length ops. chan_run ch ops ! i = Inr ())) \<and>
   (\<forall>i j. i < j \<and> j < length ops \<and> ops ! i = SetKey \<longrightarrow> chan_run ch ops ! j = Inr ()) \<and>
   (allows_nokey (ch_type ch) \<longleftrightarrow> has_accept_nokey (ch_type ch) \<and> has_ops_nokey (ch_type ch))"
proof -
  have 1: "alg_data_op ch f = Inl KeyRequired"
    if "key_mandatory ch \<and> \<not> key_set ch \<and> \<not> allows_nokey (ch_type ch)"
    using that by (simp add: alg_data_op_def)
  have 2: "chan_run ch ops ! i = Inl KeyRequired"
    if "key_mandatory ch \<and> \<not> key_set ch \<and> \<not> allows_nokey (ch_type ch)"
      "i < length ops" "ops ! i = DataOp \<and> SetKey \<notin> set (take i ops)" for i
    using chan_run_before_key [of ch i ops] that by (simp add: key_ready_def)
  have 3: "alg_data_op ch f = Inr (f ch)" if "key_ready ch"
    using that by (auto simp: alg_data_op_def key_ready_def)
  have 4: "chan_run ch ops ! i = Inr ()" if "key_ready ch" "i < length ops" for i
    using that by (rule chan_run_ready)
  have 5: "chan_run ch ops ! j = Inr ()" if "i < j \<and> j < length ops \<and> ops ! i = SetKey" for i j
    using chan_run_after_key [of i j ops ch] that by simp
  have r: "key_ready ch" if "allows_nokey (ch_type ch) \<or> \<not> key_mandatory ch \<or> key_set ch"
    using that by (auto simp: key_ready_def)
  from 1 2 3 4 5 r show ?thesis by (simp add: allows_nokey_def) blast
qed

theorem key_required_unless_nokey_witness:
  "\<not> allows_nokey type_keyed \<and> allows_nokey type_hash \<and>
   alg_data_op \<lparr>ch_type = type_keyed, key_mandatory = True, key_set = False\<rparr> key_mandatory = Inl KeyRequired \<and>
   alg_data_op \<lparr>ch_type = type_hash, key_mandatory = True, key_set = False\<rparr> key_mandatory = Inr True \<and>
   alg_data_op \<lparr>ch_type = type_keyed, key_mandatory = False, key_set = False\<rparr> key_mandatory = Inr False \<and>
   chan_run \<lparr>ch_type = type_keyed, key_mandatory = True, key_set = False\<rparr> [DataOp, DataOp, SetKey, DataOp] =
     [Inl KeyRequired, Inl KeyRequired, Inr (), Inr ()] \<and>
   chan_run \<lparr>ch_type = type_hash, key_mandatory = True, key_set = False\<rparr> [DataOp, DataOp, SetKey, DataOp] =
     [Inr (), Inr (), Inr (), Inr ()]"
proof -
  let ?sk = "\<lparr>ch_type = type_keyed, key_mandatory = True, key_set = False\<rparr>"
  let ?h = "\<lparr>ch_type = type_hash, key_mandatory = True, key_set = False\<rparr>"
  let ?n = "\<lparr>ch_type = type_keyed, key_mandatory = False, key_set = False\<rparr>"
  let ?ops = "[DataOp, DataOp, SetKey, DataOp]"
  have a: "\<not> allows_nokey type_keyed" "allows_nokey type_hash"
    by (simp_all add: allows_nokey_def type_keyed_def type_hash_def)
  have ps: "key_mandatory ?sk \<and> \<not> key_set ?sk \<and> \<not> allows_nokey (ch_type ?sk)"
    and ph: "key_mandatory ?h \<and> \<not> key_set ?h \<and> allows_nokey (ch_type ?h)"
    and pn: "\<not> key_mandatory ?n \<or> key_set ?n"
    using a by simp_all
  from key_required_unless_nokey [of ?sk key_mandatory ?ops] ps
  have 1: "alg_data_op ?sk key_mandatory = Inl KeyRequired" by blast
  from key_required_unless_nokey [of ?h key_mandatory ?ops] ph
  have 2: "alg_data_op ?h key_mandatory = Inr (key_mandatory ?h)" by blast
  from key_required_unless_nokey [of ?n key_mandatory ?ops] pn
  have 3: "alg_data_op ?n key_mandatory = Inr (key_mandatory ?n)" by blast
  have 4: "chan_run ?sk ?ops = [Inl KeyRequired, Inl KeyRequired, Inr (), Inr ()]"
    "chan_run ?h ?ops = [Inr (), Inr (), Inr (), Inr ()]"
    using a by (simp_all add: alg_data_op_def alg_setkey_def)
  from a 1 2 3 4 show ?thesis by simp
qed

end
